theory Spec2Isabelle
  imports Complex_Main "HOL-Library.Word" "HOL-Library.Multiset"
begin

unbundle bit_operations_syntax

section \<open>Data model (quadtree.h, quadtree\_private.h)\<close>

text \<open>
  The embedding follows \<^verbatim>\<open>src/src/quadtree.c\<close> function by function; a leading
  underscore of a C name is dropped (\<^verbatim>\<open>_qt_insert\<close> is \<open>qt_insert_rec\<close>,
  \<^verbatim>\<open>_split_node\<close> is \<open>split_node\<close>, and so on).

  \<^item> \<^verbatim>\<open>FLOAT\<close> (a C double) is idealised as a real number: comparisons are total and
    the midpoint of a sane interval lies strictly inside it. Rounding, infinities and
    NaN are outside the model.
  \<^item> \<^verbatim>\<open>FLOAT coords[2]\<close> is a pair; \<open>X\<close> and \<open>Y\<close> select its components.
  \<^item> The bucket counters \<^verbatim>\<open>leaf.n\<close> and \<^verbatim>\<open>leaf.size\<close> are \<^verbatim>\<open>unsigned int\<close>:
    32-bit words, because \<^verbatim>\<open>size *= 2\<close> can wrap. The finalised \<^verbatim>\<open>Leaf.n\<close> and the
    iterator's \<^verbatim>\<open>cur_item\<close> are 64-bit words, because \<^verbatim>\<open>n - 1 >= cur_item\<close> is an
    unsigned comparison.
  \<^item> Counters of allocated objects (\<^verbatim>\<open>size\<close>, \<^verbatim>\<open>ninners\<close>, \<^verbatim>\<open>nleafs\<close>), the depth
    counters and byte offsets inside the finalised buffer are natural numbers: each
    counted object occupies memory of a 64-bit address space, so none of them can wrap
    before allocation fails.
  \<^item> \<^verbatim>\<open>assert\<close> is a branch of the model (\<open>Assert_failed\<close>); so is every access outside
    an array (\<open>Out_of_bounds\<close>) and every read of an address of the finalised buffer
    that holds no node of the expected kind (\<open>Bad_address\<close>). The three assertions on
    \<^verbatim>\<open>malloc_usable_size\<close> depend on the allocator and are left out; allocation itself is
    taken to succeed.
\<close>

type_synonym FLOAT = real
type_synonym ITEM = "64 word"
type_synonym BUCKETSIZE = "32 word"

abbreviation (input) X :: "FLOAT \<times> FLOAT \<Rightarrow> FLOAT" where
  "X v \<equiv> fst v"

abbreviation (input) Y :: "FLOAT \<times> FLOAT \<Rightarrow> FLOAT" where
  "Y v \<equiv> snd v"

record Quadrant =
  ne :: "FLOAT \<times> FLOAT"
  sw :: "FLOAT \<times> FLOAT"

record Item =
  ivalue :: ITEM
  coords :: "FLOAT \<times> FLOAT"

datatype error = Assert_failed | Out_of_bounds | Bad_address | Out_of_fuel

text \<open>\<^verbatim>\<open>typedef enum { NW, NE, SW, SE, QUAD } quadindex\<close>: a C enum is an integer, and the
  code increments it and combines it bitwise.\<close>

definition NW :: nat where "NW = 0"
definition NE :: nat where "NE = 1"
definition SW :: nat where "SW = 2"
definition SE :: nat where "SE = 3"
definition QUAD :: nat where "QUAD = 4"

lemmas quadindex_defs = NW_def NE_def SW_def SE_def QUAD_def

definition NORTH :: "nat \<Rightarrow> nat" where "NORTH x = x AND NE"
definition SOUTH :: "nat \<Rightarrow> nat" where "SOUTH x = x OR SW"
definition EAST :: "nat \<Rightarrow> nat" where "EAST x = x OR NE"
definition WEST :: "nat \<Rightarrow> nat" where "WEST x = x AND SW"

text \<open>The products of comparisons of \<^verbatim>\<open>OVERLAP\<close> and \<^verbatim>\<open>CONTAINED\<close> are non-zero exactly
  when every factor is true.\<close>

definition OVERLAP :: "Quadrant \<Rightarrow> Quadrant \<Rightarrow> bool" where
  "OVERLAP qA qB \<longleftrightarrow>
     (X (sw qA) \<le> X (ne qB) \<and> Y (sw qA) \<le> Y (ne qB)) \<and>
     (X (ne qA) \<ge> X (sw qB) \<and> Y (ne qA) \<ge> Y (sw qB))"

definition CONTAINED :: "Quadrant \<Rightarrow> Quadrant \<Rightarrow> bool" where
  "CONTAINED inner outer \<longleftrightarrow>
     X (sw inner) \<ge> X (sw outer) \<and> Y (sw inner) \<ge> Y (sw outer) \<and>
     X (ne inner) \<le> X (ne outer) \<and> Y (ne inner) \<le> Y (ne outer)"

definition ASSERT_REGION_SANE :: "Quadrant \<Rightarrow> bool" where
  "ASSERT_REGION_SANE region \<longleftrightarrow>
     X (ne region) > X (sw region) \<and> Y (ne region) > Y (sw region)"

definition CALCDIVS :: "Quadrant \<Rightarrow> FLOAT \<times> FLOAT" where
  "CALCDIVS region =
     (X (sw region) + (X (ne region) - X (sw region)) / 2,
      Y (sw region) + (Y (ne region) - Y (sw region)) / 2)"

definition in_quadrant :: "Item \<Rightarrow> Quadrant \<Rightarrow> bool" where
  "in_quadrant i q \<longleftrightarrow>
     (X (coords i) \<ge> X (sw q)) \<and> (X (coords i) \<le> X (ne q)) \<and>
     (Y (coords i) \<ge> Y (sw q)) \<and> (Y (coords i) \<le> Y (ne q))"

text \<open>A transient node is an inner node with four child pointers (\<open>None\<close> is \<^verbatim>\<open>NULL\<close>) or
  a leaf with its bucket: the \<open>leaf_n\<close> item pointers stored so far, in order, and the
  capacity \<open>leaf_size\<close> of the allocated array.\<close>

datatype TransNode =
    TransInner (quadrants: "TransNode option list")
  | TransLeaf (leaf_items: "Item list") (leaf_n: "32 word") (leaf_size: "32 word")

fun is_inner :: "TransNode \<Rightarrow> bool" where
  "is_inner (TransInner qs) = True"
| "is_inner (TransLeaf its k sz) = False"

record UFQuadTree =
  uf_root :: TransNode
  uf_region :: Quadrant
  uf_size :: nat
  uf_maxdepth :: nat
  uf_maxfill :: BUCKETSIZE
  uf_ninners :: nat
  uf_nleafs :: nat

section \<open>The builder\<close>

definition nullify_quadrants :: "TransNode option list" where
  "nullify_quadrants = [None, None, None, None]"

definition qt_create_quadtree :: "Quadrant \<Rightarrow> BUCKETSIZE \<Rightarrow> UFQuadTree" where
  "qt_create_quadtree region maxfill =
     \<lparr> uf_root = TransInner nullify_quadrants,
       uf_region = region,
       uf_size = 0,
       uf_maxdepth = 0,
       uf_maxfill = maxfill,
       uf_ninners = 1,
       uf_nleafs = 0 \<rparr>"

definition FLOATcmp :: "FLOAT \<Rightarrow> FLOAT \<Rightarrow> int" where
  "FLOATcmp a b = (if a > b then 1 else 0) - (if a < b then 1 else 0)"

definition itemcmp :: "Item \<Rightarrow> Item \<Rightarrow> int" where
  "itemcmp a b =
     (let wrtx = FLOATcmp (X (coords a)) (X (coords b));
          wrty = FLOATcmp (Y (coords a)) (Y (coords b))
      in wrtx + (wrty * (if wrtx = 0 then 1 else 0)))"

text \<open>\<^verbatim>\<open>for (i=1; i<node->leaf.n; i++) if (_itemcmp(&items[i-1], &items[i])) return true;\<close>
  The loop compares neighbours only; \<open>distinct_scan\<close> is that loop over the bucket.\<close>

fun distinct_scan :: "Item list \<Rightarrow> bool" where
  "distinct_scan (a # b # rest) = (if itemcmp a b \<noteq> 0 then True else distinct_scan (b # rest))"
| "distinct_scan rest = False"

definition distinct_items_exist :: "TransNode \<Rightarrow> bool" where
  "distinct_items_exist node = distinct_scan (take (unat (leaf_n node)) (leaf_items node))"

definition init_leaf_node :: "UFQuadTree \<Rightarrow> UFQuadTree \<times> TransNode" where
  "init_leaf_node qt =
     (qt\<lparr>uf_nleafs := uf_nleafs qt + 1\<rparr>, TransLeaf [] 0 (uf_maxfill qt))"

text \<open>\<^verbatim>\<open>_qt_insert\<close>, \<^verbatim>\<open>_ensure_bucket_size\<close> and \<^verbatim>\<open>_split_node\<close> call one another. Each is
  written over \<open>ins\<close>, the recursive call of \<^verbatim>\<open>_qt_insert\<close>; \<open>qt_insert_rec\<close> ties the
  knot. A call mutates the tree's counters and the node it is given: the model returns
  both. The quadrant \<^verbatim>\<open>*q\<close> is narrowed in place on the way down and not read after the
  call returns, so it is not returned.\<close>

type_synonym insert_fn =
  "UFQuadTree \<Rightarrow> TransNode \<Rightarrow> Item \<Rightarrow> Quadrant \<Rightarrow> nat \<Rightarrow> error + (UFQuadTree \<times> TransNode)"

text \<open>The loop of \<^verbatim>\<open>_split_node\<close>: every former item is inserted into the node itself, each
  time with a fresh copy of the quadrant and at \<^verbatim>\<open>depth-1\<close>.\<close>

fun split_loop ::
  "insert_fn \<Rightarrow> Item list \<Rightarrow> UFQuadTree \<Rightarrow> TransNode \<Rightarrow> Quadrant \<Rightarrow> nat \<Rightarrow> error + (UFQuadTree \<times> TransNode)"
where
  "split_loop ins [] qt node quadrant depth = Inr (qt, node)"
| "split_loop ins (it # its) qt node quadrant depth =
     (case ins qt node it quadrant (depth - 1) of
        Inl e \<Rightarrow> Inl e
      | Inr (qt', node') \<Rightarrow> split_loop ins its qt' node' quadrant depth)"

definition split_node ::
  "insert_fn \<Rightarrow> UFQuadTree \<Rightarrow> TransNode \<Rightarrow> Quadrant \<Rightarrow> nat \<Rightarrow> error + (UFQuadTree \<times> TransNode)"
where
  "split_node ins qt node quadrant depth =
     (if \<not> distinct_items_exist node then
        Inr (qt, TransLeaf (leaf_items node) (leaf_n node) (leaf_size node * 2))
      else
        let cpy = node;
            qt = qt\<lparr>uf_ninners := uf_ninners qt + 1, uf_nleafs := uf_nleafs qt - 1\<rparr>;
            node = TransInner nullify_quadrants
        in split_loop ins (take (unat (leaf_n cpy)) (leaf_items cpy)) qt node quadrant depth)"

definition ensure_bucket_size ::
  "insert_fn \<Rightarrow> UFQuadTree \<Rightarrow> TransNode \<Rightarrow> Quadrant \<Rightarrow> nat \<Rightarrow> error + (UFQuadTree \<times> TransNode)"
where
  "ensure_bucket_size ins qt node quadrant depth =
     (if is_inner node then Inl Assert_failed
      else if leaf_n node + 1 > leaf_size node then split_node ins qt node quadrant depth
      else Inr (qt, node))"

text \<open>The inner-node branch of \<^verbatim>\<open>_qt_insert\<close>: classify the item, narrow the quadrant,
  create the child leaf when the slot is \<^verbatim>\<open>NULL\<close>, and insert into the child.\<close>

definition insert_inner ::
  "insert_fn \<Rightarrow> UFQuadTree \<Rightarrow> TransNode option list \<Rightarrow> Item \<Rightarrow> Quadrant \<Rightarrow> nat \<Rightarrow> error + (UFQuadTree \<times> TransNode)"
where
  "insert_inner ins qt qs item q depth =
     (let quad = 0;
          (div_x, div_y) = CALCDIVS q;
          (quad, q) =
            (if X (coords item) \<ge> div_x
             then (EAST quad, q\<lparr>sw := (div_x, Y (sw q))\<rparr>)
             else (WEST quad, q\<lparr>ne := (div_x, Y (ne q))\<rparr>));
          (quad, q) =
            (if Y (coords item) \<ge> div_y
             then (NORTH quad, q\<lparr>sw := (X (sw q), div_y)\<rparr>)
             else (SOUTH quad, q\<lparr>ne := (X (ne q), div_y)\<rparr>))
      in if \<not> ASSERT_REGION_SANE q then Inl Assert_failed
         else
           let (qt, child) = (case qs ! quad of None \<Rightarrow> init_leaf_node qt | Some c \<Rightarrow> (qt, c))
           in case ins qt child item q depth of
                Inl e \<Rightarrow> Inl e
              | Inr (qt', child') \<Rightarrow> Inr (qt', TransInner (qs[quad := Some child'])))"

text \<open>The body of \<^verbatim>\<open>_qt_insert\<close> from the label \<^verbatim>\<open>RESTART\<close>. In the leaf branch the store
  \<^verbatim>\<open>items[n++] = item\<close> is inside the allocated array only while \<open>n < size\<close>. When the
  split turned the leaf into an inner node, \<^verbatim>\<open>goto RESTART\<close> runs the assertions and the
  inner branch on the same node.\<close>

definition qt_insert_restart ::
  "insert_fn \<Rightarrow> UFQuadTree \<Rightarrow> TransNode \<Rightarrow> Item \<Rightarrow> Quadrant \<Rightarrow> nat \<Rightarrow> error + (UFQuadTree \<times> TransNode)"
where
  "qt_insert_restart ins qt node item q depth =
     (if \<not> in_quadrant item q \<or> \<not> ASSERT_REGION_SANE q then Inl Assert_failed
      else case node of
        TransInner qs \<Rightarrow> insert_inner ins qt qs item q depth
      | TransLeaf its k sz \<Rightarrow>
          (case ensure_bucket_size ins qt node q depth of
             Inl e \<Rightarrow> Inl e
           | Inr (qt', TransInner qs) \<Rightarrow>
               (if \<not> in_quadrant item q \<or> \<not> ASSERT_REGION_SANE q then Inl Assert_failed
                else insert_inner ins qt' qs item q depth)
           | Inr (qt', TransLeaf its' k' sz') \<Rightarrow>
               (if unat k' < unat sz'
                then Inr (qt', TransLeaf (its' @ [item]) (k' + 1) sz')
                else Inl Out_of_bounds)))"

text \<open>\<^verbatim>\<open>_qt_insert\<close>. The fuel bounds the nesting of calls: the C recursion has no bound of
  its own. \<open>Out_of_fuel\<close> is not a result of the program.\<close>

primrec qt_insert_rec ::
  "nat \<Rightarrow> UFQuadTree \<Rightarrow> TransNode \<Rightarrow> Item \<Rightarrow> Quadrant \<Rightarrow> nat \<Rightarrow> error + (UFQuadTree \<times> TransNode)"
where
  "qt_insert_rec 0 qt node item q depth = Inl Out_of_fuel"
| "qt_insert_rec (Suc fuel) qt node item q depth =
     (let depth = depth + 1;
          qt = (if depth > uf_maxdepth qt then qt\<lparr>uf_maxdepth := depth\<rparr> else qt)
      in qt_insert_restart (qt_insert_rec fuel) qt node item q depth)"

definition qt_insert :: "nat \<Rightarrow> UFQuadTree \<Rightarrow> Item \<Rightarrow> error + UFQuadTree" where
  "qt_insert fuel qt item =
     (let qt = qt\<lparr>uf_size := uf_size qt + 1\<rparr>;
          quadrant = uf_region qt
      in case qt_insert_rec fuel qt (uf_root qt) item quadrant 0 of
           Inl e \<Rightarrow> Inl e
         | Inr (qt', root') \<Rightarrow> Inr (qt'\<lparr>uf_root := root'\<rparr>))"

text \<open>A builder is driven by \<^verbatim>\<open>qt_create_quadtree\<close> followed by calls of \<^verbatim>\<open>qt_insert\<close>.\<close>

fun qt_insert_all :: "nat \<Rightarrow> UFQuadTree \<Rightarrow> Item list \<Rightarrow> error + UFQuadTree" where
  "qt_insert_all fuel qt [] = Inr qt"
| "qt_insert_all fuel qt (item # items) =
     (case qt_insert fuel qt item of
        Inl e \<Rightarrow> Inl e
      | Inr qt' \<Rightarrow> qt_insert_all fuel qt' items)"

definition qt_build :: "nat \<Rightarrow> Quadrant \<Rightarrow> BUCKETSIZE \<Rightarrow> Item list \<Rightarrow> error + UFQuadTree" where
  "qt_build fuel region maxfill items = qt_insert_all fuel (qt_create_quadtree region maxfill) items"

section \<open>The finalised tree\<close>

text \<open>The finalised tree is one buffer: the header, the array of \<^verbatim>\<open>Inner\<close> structs and the
  packed leaves. An address is a byte offset from \<^verbatim>\<open>MEM_INNERS\<close>, the unit in which the
  child links are stored. The buffer behind the header is a store from addresses to the
  node written there; reading an address as the other kind of node, or one never written,
  is \<open>Bad_address\<close>. \<^verbatim>\<open>struct QuadTree\<close> is declared in a header that is not part of the
  sources; its fields are the ones \<^verbatim>\<open>_init_quadtree\<close> sets.\<close>

datatype Node =
    Node_Inner (Inner_quadrants: "nat list")
  | Node_Leaf (Leaf_n: "64 word") (Leaf_items: "Item list")

record QuadTree =
  qt_region :: Quadrant
  qt_size :: nat
  qt_maxdepth :: nat
  qt_ninners :: nat
  qt_nleafs :: nat
  qt_mem :: "nat \<rightharpoonup> Node"

definition sizeof_Inner :: nat where "sizeof_Inner = 32"
definition sizeof_Leaf :: nat where "sizeof_Leaf = 8"
definition sizeof_Item :: nat where "sizeof_Item = 24"

definition MEM_INNERS :: nat where "MEM_INNERS = 0"

definition MEM_LEAFS :: "QuadTree \<Rightarrow> nat" where
  "MEM_LEAFS quadtree = MEM_INNERS + qt_ninners quadtree * sizeof_Inner"

definition MEM_ROOT :: nat where "MEM_ROOT = MEM_INNERS"

definition ROOT :: nat where "ROOT = 0"

definition IS_LEAF :: "QuadTree \<Rightarrow> nat \<Rightarrow> bool" where
  "IS_LEAF quadtree node \<longleftrightarrow> node \<ge> MEM_LEAFS quadtree"

definition IS_INNER :: "QuadTree \<Rightarrow> nat \<Rightarrow> bool" where
  "IS_INNER quadtree node \<longleftrightarrow> \<not> IS_LEAF quadtree node"

definition as_inner :: "QuadTree \<Rightarrow> nat \<Rightarrow> error + nat list" where
  "as_inner quadtree a =
     (case qt_mem quadtree a of Some (Node_Inner qs) \<Rightarrow> Inr qs | _ \<Rightarrow> Inl Bad_address)"

definition as_leaf :: "QuadTree \<Rightarrow> nat \<Rightarrow> error + (64 word \<times> Item list)" where
  "as_leaf quadtree a =
     (case qt_mem quadtree a of Some (Node_Leaf k its) \<Rightarrow> Inr (k, its) | _ \<Rightarrow> Inl Bad_address)"

text \<open>\<^verbatim>\<open>inner->quadrants[i] = v\<close> for the inner node at address \<open>a\<close>. The buffer comes from
  \<^verbatim>\<open>posix_memalign\<close> uninitialised; the entries of a node not yet written read as 0 here.\<close>

definition set_inner_quadrant :: "nat \<Rightarrow> nat \<Rightarrow> nat \<Rightarrow> QuadTree \<Rightarrow> QuadTree" where
  "set_inner_quadrant a i v quadtree =
     quadtree\<lparr>qt_mem := (qt_mem quadtree)
       (a \<mapsto> Node_Inner ((case qt_mem quadtree a of
                               Some (Node_Inner qs) \<Rightarrow> qs
                             | _ \<Rightarrow> replicate 4 0)[i := v]))\<rparr>"

definition init_quadtree :: "UFQuadTree \<Rightarrow> QuadTree" where
  "init_quadtree from =
     \<lparr> qt_region = uf_region from,
       qt_size = uf_size from,
       qt_maxdepth = uf_maxdepth from,
       qt_ninners = uf_ninners from,
       qt_nleafs = uf_nleafs from,
       qt_mem = Map.empty \<rparr>"

text \<open>\<^verbatim>\<open>st->cur_trans\<close>, the transient node being finalised, is the argument of the
  recursion; the rest of \<^verbatim>\<open>FinaliseState\<close> is threaded through it.\<close>

record FinaliseState =
  st_quadtree :: QuadTree
  st_ninners :: nat
  st_cur_node :: nat
  st_next_leaf :: nat

definition qt_finalise_leaf :: "TransNode \<Rightarrow> FinaliseState \<Rightarrow> error + FinaliseState" where
  "qt_finalise_leaf cur st =
     (if \<not> IS_LEAF (st_quadtree st) (st_cur_node st) then Inl Assert_failed
      else
        let leaf = st_cur_node st;
            st = st\<lparr>st_next_leaf := st_next_leaf st + (sizeof_Leaf + unat (leaf_n cur) * sizeof_Item)\<rparr>
        in Inr (st\<lparr>st_quadtree := (st_quadtree st)\<lparr>qt_mem := (qt_mem (st_quadtree st))
              (leaf \<mapsto> Node_Leaf (ucast (leaf_n cur)) (take (unat (leaf_n cur)) (leaf_items cur)))\<rparr>\<rparr>))"

text \<open>\<^verbatim>\<open>_qt_finalise\<close> with \<^verbatim>\<open>_qt_finalise_inner\<close>; \<open>qt_finalise_for\<close> is the loop over the four
  child slots of the inner node at address \<open>inner\<close>, from slot \<open>i\<close> on.\<close>

fun qt_finalise_node :: "TransNode \<Rightarrow> FinaliseState \<Rightarrow> error + FinaliseState"
and qt_finalise_for :: "nat \<Rightarrow> nat \<Rightarrow> TransNode option list \<Rightarrow> FinaliseState \<Rightarrow> error + FinaliseState"
where
  "qt_finalise_node (TransInner qs) st =
     (let inner = st_cur_node st;
          st = st\<lparr>st_ninners := st_ninners st + 1\<rparr>
      in qt_finalise_for inner 0 qs st)"
| "qt_finalise_node (TransLeaf its k sz) st = qt_finalise_leaf (TransLeaf its k sz) st"
| "qt_finalise_for inner i [] st = Inr st"
| "qt_finalise_for inner i (None # cs) st =
     qt_finalise_for inner (i + 1) cs
       (st\<lparr>st_quadtree := set_inner_quadrant inner i ROOT (st_quadtree st)\<rparr>)"
| "qt_finalise_for inner i (Some c # cs) st =
     (let st = st\<lparr>st_cur_node :=
                  (if is_inner c then MEM_INNERS + sizeof_Inner * st_ninners st
                   else st_next_leaf st)\<rparr>;
          st = st\<lparr>st_quadtree :=
                  set_inner_quadrant inner i (st_cur_node st - MEM_INNERS) (st_quadtree st)\<rparr>
      in case qt_finalise_node c st of
           Inl e \<Rightarrow> Inl e
         | Inr st' \<Rightarrow> qt_finalise_for inner (i + 1) cs st')"

text \<open>\<^verbatim>\<open>qt_finalise\<close>, without the optional dump of the buffer to a file.\<close>

definition qt_finalise :: "UFQuadTree \<Rightarrow> error + QuadTree" where
  "qt_finalise ufqt =
     (let qt = init_quadtree ufqt;
          st = \<lparr> st_quadtree = qt, st_ninners = 0, st_cur_node = MEM_INNERS,
                 st_next_leaf = MEM_LEAFS qt \<rparr>
      in case qt_finalise_node (uf_root ufqt) st of
           Inl e \<Rightarrow> Inl e
         | Inr st' \<Rightarrow> Inr (st_quadtree st'))"

section \<open>The query iterator\<close>

record Qt_Itr_Frame =
  fr_node :: nat
  fr_quadrants :: "Quadrant list"
  fr_quadrant :: nat
  fr_within_parent :: bool

text \<open>\<open>itr_stack\<close> holds the frames that \<^verbatim>\<open>qt_query_itr\<close> allocated behind the iterator;
  \<open>itr_lp\<close> is the leaf pointer (\<open>None\<close> is \<^verbatim>\<open>NULL\<close>).\<close>

record Qt_Iterator =
  itr_stack :: "Qt_Itr_Frame list"
  itr_lp :: "nat option"
  itr_so :: int
  itr_cur_item :: "64 word"
  itr_region :: Quadrant
  itr_quadtree :: QuadTree

text \<open>\<^verbatim>\<open>FRAME(itr,so)\<close> is \<^verbatim>\<open>itr->stack[so]\<close>: inside the allocation only for
  \<open>0 \<le> so < length (itr_stack itr)\<close>.\<close>

definition FRAME :: "Qt_Iterator \<Rightarrow> int \<Rightarrow> error + Qt_Itr_Frame" where
  "FRAME itr so =
     (if 0 \<le> so \<and> so < int (length (itr_stack itr))
      then Inr (itr_stack itr ! nat so) else Inl Out_of_bounds)"

definition set_FRAME :: "Qt_Iterator \<Rightarrow> int \<Rightarrow> Qt_Itr_Frame \<Rightarrow> Qt_Iterator" where
  "set_FRAME itr so f = itr\<lparr>itr_stack := (itr_stack itr)[nat so := f]\<rparr>"

text \<open>The assignments of \<^verbatim>\<open>_gen_quadrants\<close>, listed in the order of the indices
  \<^verbatim>\<open>NW, NE, SW, SE\<close>, and the function with its assertions.\<close>

definition gen_quadrants_mem :: "Quadrant \<Rightarrow> Quadrant list" where
  "gen_quadrants_mem region =
     (let (div_x, div_y) = CALCDIVS region
      in [ \<lparr>ne = (div_x, Y (ne region)), sw = (X (sw region), div_y)\<rparr>,
           \<lparr>ne = (X (ne region), Y (ne region)), sw = (div_x, div_y)\<rparr>,
           \<lparr>ne = (div_x, div_y), sw = (X (sw region), Y (sw region))\<rparr>,
           \<lparr>ne = (X (ne region), div_y), sw = (div_x, Y (sw region))\<rparr> ])"

definition gen_quadrants :: "Quadrant \<Rightarrow> error + Quadrant list" where
  "gen_quadrants region =
     (if \<not> ASSERT_REGION_SANE region then Inl Assert_failed
      else
        let mem = gen_quadrants_mem region
        in if ASSERT_REGION_SANE (mem ! NE) \<and> ASSERT_REGION_SANE (mem ! SE) \<and>
              ASSERT_REGION_SANE (mem ! SW) \<and> ASSERT_REGION_SANE (mem ! NW)
           then Inr mem else Inl Assert_failed)"

text \<open>\<^verbatim>\<open>_itr_next_recursive\<close> is a loop nest entered through \<^verbatim>\<open>goto RECURSE\<close>. Each label
  is a block of straight-line code that returns or jumps: \<open>RECURSE\<close> is the function's
  entry, \<open>WHILE_SO\<close> the head of \<^verbatim>\<open>while (itr->so >= 0)\<close> and \<open>WHILE_QUADRANT\<close> the head
  of \<^verbatim>\<open>while (FRAME(itr,so).quadrant != QUAD)\<close>. The register copy \<^verbatim>\<open>so\<close> always equals
  \<^verbatim>\<open>itr->so\<close> where it is read.\<close>

datatype label = RECURSE | WHILE_SO | WHILE_QUADRANT

datatype jump = Return "error + Qt_Iterator" | Goto label Qt_Iterator

definition at_RECURSE :: "Qt_Iterator \<Rightarrow> jump" where
  "at_RECURSE itr =
     (if \<not> itr_so itr \<ge> 0 then Return (Inl Assert_failed)
      else case FRAME itr (itr_so itr) of
        Inl e \<Rightarrow> Return (Inl e)
      | Inr f \<Rightarrow>
          if IS_LEAF (itr_quadtree itr) (fr_node f)
          then Return (Inr (itr\<lparr>itr_cur_item := 0, itr_lp := Some (fr_node f)\<rparr>))
          else Goto WHILE_SO itr)"

definition at_WHILE_SO :: "Qt_Iterator \<Rightarrow> jump" where
  "at_WHILE_SO itr =
     (if itr_so itr \<ge> 0 then
        (case FRAME itr (itr_so itr) of
           Inl e \<Rightarrow> Return (Inl e)
         | Inr f \<Rightarrow>
             if \<not> IS_INNER (itr_quadtree itr) (fr_node f) then Return (Inl Assert_failed)
             else Goto WHILE_QUADRANT itr)
      else if itr_so itr \<noteq> - 1 then Return (Inl Assert_failed)
      else Return (Inr (itr\<lparr>itr_lp := None\<rparr>)))"

text \<open>\<^verbatim>\<open>NEXTQUADRANT: FRAME(itr,so).quadrant++;\<close>\<close>

definition NEXTQUADRANT :: "Qt_Iterator \<Rightarrow> Qt_Itr_Frame \<Rightarrow> jump" where
  "NEXTQUADRANT itr f =
     Goto WHILE_QUADRANT (set_FRAME itr (itr_so itr) (f\<lparr>fr_quadrant := fr_quadrant f + 1\<rparr>))"

text \<open>Entering the child: the new frame is \<^verbatim>\<open>FRAME(itr,so)\<close> after \<^verbatim>\<open>so++\<close>, the parent's
  frame \<open>prev\<close> is \<^verbatim>\<open>PREVFRAME(itr,so)\<close>; \<open>child\<close> is the parent's offset for the quadrant
  and \<open>cq\<close> the parent's rectangle of it.\<close>

definition enter_child :: "Qt_Iterator \<Rightarrow> Qt_Itr_Frame \<Rightarrow> nat \<Rightarrow> Quadrant \<Rightarrow> jump" where
  "enter_child itr prev child cq =
     (let so = itr_so itr + 1;
          itr = itr\<lparr>itr_so := so\<rparr>
      in case FRAME itr so of
           Inl e \<Rightarrow> Return (Inl e)
         | Inr f \<Rightarrow>
             (case gen_quadrants cq of
                Inl e \<Rightarrow> Return (Inl e)
              | Inr mem \<Rightarrow>
                  Goto RECURSE (set_FRAME itr so
                    (f\<lparr> fr_quadrant := 0,
                        fr_quadrants := mem,
                        fr_within_parent :=
                          (fr_within_parent prev \<or> CONTAINED cq (itr_region itr)),
                        fr_node := MEM_INNERS + child \<rparr>))))"

definition at_WHILE_QUADRANT :: "Qt_Iterator \<Rightarrow> jump" where
  "at_WHILE_QUADRANT itr =
     (case FRAME itr (itr_so itr) of
        Inl e \<Rightarrow> Return (Inl e)
      | Inr f \<Rightarrow>
          if fr_quadrant f \<noteq> QUAD then
            (case as_inner (itr_quadtree itr) (fr_node f) of
               Inl e \<Rightarrow> Return (Inl e)
             | Inr qs \<Rightarrow>
                 if \<not> fr_quadrant f < length qs then Return (Inl Out_of_bounds)
                 else if qs ! fr_quadrant f = ROOT then NEXTQUADRANT itr f
                 else if \<not> fr_quadrant f < length (fr_quadrants f) then Return (Inl Out_of_bounds)
                 else if OVERLAP (itr_region itr) (fr_quadrants f ! fr_quadrant f)
                 then enter_child itr f (qs ! fr_quadrant f) (fr_quadrants f ! fr_quadrant f)
                 else NEXTQUADRANT itr f)
          else
            (let so = itr_so itr - 1;
                 itr = itr\<lparr>itr_so := so\<rparr>
             in if so \<ge> 0 then
                  (case FRAME itr so of
                     Inl e \<Rightarrow> Return (Inl e)
                   | Inr p \<Rightarrow>
                       Goto WHILE_SO (set_FRAME itr so (p\<lparr>fr_quadrant := fr_quadrant p + 1\<rparr>)))
                else Goto WHILE_SO itr))"

definition at_label :: "label \<Rightarrow> Qt_Iterator \<Rightarrow> jump" where
  "at_label l itr =
     (case l of
        RECURSE \<Rightarrow> at_RECURSE itr
      | WHILE_SO \<Rightarrow> at_WHILE_SO itr
      | WHILE_QUADRANT \<Rightarrow> at_WHILE_QUADRANT itr)"

partial_function (option) itr_goto :: "label \<Rightarrow> Qt_Iterator \<Rightarrow> (error + Qt_Iterator) option" where
  "itr_goto l itr =
     (case at_label l itr of
        Return r \<Rightarrow> Some r
      | Goto l' itr' \<Rightarrow> itr_goto l' itr')"

definition itr_next_recursive :: "Qt_Iterator \<Rightarrow> (error + Qt_Iterator) option" where
  "itr_next_recursive itr = itr_goto RECURSE itr"

text \<open>\<^verbatim>\<open>qt_query_itr\<close>. The allocation is \<^verbatim>\<open>sizeof(Qt_Iterator) + sizeof(*itr->stack) *
  qt->maxdepth\<close> and the stack starts behind the iterator, so it has \<^verbatim>\<open>maxdepth\<close> frames.
  Their initial contents are whatever the allocator left; \<open>blank_frame\<close> stands for it.
  \<^verbatim>\<open>lp\<close> and \<^verbatim>\<open>cur_item\<close> are not initialised either, and are set by
  \<^verbatim>\<open>_itr_next_recursive\<close>.\<close>

definition blank_frame :: Qt_Itr_Frame where
  "blank_frame = \<lparr>fr_node = 0, fr_quadrants = [], fr_quadrant = 0, fr_within_parent = False\<rparr>"

definition qt_query_itr :: "QuadTree \<Rightarrow> Quadrant \<Rightarrow> (error + Qt_Iterator) option" where
  "qt_query_itr qt region =
     (let itr = \<lparr> itr_stack = replicate (qt_maxdepth qt) blank_frame,
                  itr_lp = None,
                  itr_so = 0,
                  itr_cur_item = 0,
                  itr_region = region,
                  itr_quadtree = qt \<rparr>
      in case FRAME itr 0 of
           Inl e \<Rightarrow> Some (Inl e)
         | Inr f \<Rightarrow>
             (case gen_quadrants (qt_region qt) of
                Inl e \<Rightarrow> Some (Inl e)
              | Inr mem \<Rightarrow>
                  itr_next_recursive (set_FRAME itr 0
                    (f\<lparr> fr_node := MEM_ROOT,
                        fr_quadrant := 0,
                        fr_within_parent := False,
                        fr_quadrants := mem \<rparr>))))"

text \<open>\<^verbatim>\<open>qt_itr_next\<close>: \<open>ENTER\<close> is its entry label and \<open>WHILE_ITEM\<close> the head of the loop over
  the items of the leaf. Behind the loop the iterator leaves the leaf (\<open>Advance\<close>): it
  calls \<^verbatim>\<open>_itr_next_recursive\<close> and jumps to \<open>ENTER\<close>. The result is the item, or \<open>None\<close>
  for \<^verbatim>\<open>NULL\<close>, with the iterator as the call left it.\<close>

datatype next_label = ENTER | WHILE_ITEM

datatype next_jump =
    Return_item "error + (Item option \<times> Qt_Iterator)"
  | Goto_next next_label Qt_Iterator
  | Advance Qt_Iterator

definition at_ENTER :: "Qt_Iterator \<Rightarrow> next_jump" where
  "at_ENTER itr =
     (if itr_lp itr = None then Return_item (Inr (None, itr))
      else Goto_next WHILE_ITEM itr)"

definition at_WHILE_ITEM :: "Qt_Iterator \<Rightarrow> next_jump" where
  "at_WHILE_ITEM itr =
     (case FRAME itr (itr_so itr * (if itr_lp itr \<noteq> None then 1 else 0)) of
        Inl e \<Rightarrow> Return_item (Inl e)
      | Inr f \<Rightarrow>
          (case as_leaf (itr_quadtree itr) (fr_node f) of
             Inl e \<Rightarrow> Return_item (Inl e)
           | Inr (k, its) \<Rightarrow>
               if k - 1 \<ge> itr_cur_item itr then
                 (case itr_lp itr of
                    None \<Rightarrow> Return_item (Inl Bad_address)
                  | Some lp \<Rightarrow>
                      (case as_leaf (itr_quadtree itr) lp of
                         Inl e \<Rightarrow> Return_item (Inl e)
                       | Inr (k', items) \<Rightarrow>
                           if \<not> unat (itr_cur_item itr) < length items
                           then Return_item (Inl Out_of_bounds)
                           else
                             let itm = items ! unat (itr_cur_item itr);
                                 itr = itr\<lparr>itr_cur_item := itr_cur_item itr + 1\<rparr>
                             in if in_quadrant itm (itr_region itr)
                                then Return_item (Inr (Some itm, itr))
                                else Goto_next WHILE_ITEM itr))
               else
                 (let itr = itr\<lparr>itr_so := itr_so itr - 1\<rparr>
                  in case FRAME itr (itr_so itr) of
                       Inl e \<Rightarrow> Return_item (Inl e)
                     | Inr p \<Rightarrow>
                         Advance (set_FRAME itr (itr_so itr)
                                    (p\<lparr>fr_quadrant := fr_quadrant p + 1\<rparr>)))))"

definition at_next_label :: "next_label \<Rightarrow> Qt_Iterator \<Rightarrow> next_jump" where
  "at_next_label l itr = (case l of ENTER \<Rightarrow> at_ENTER itr | WHILE_ITEM \<Rightarrow> at_WHILE_ITEM itr)"

partial_function (option) qt_itr_next_goto ::
  "next_label \<Rightarrow> Qt_Iterator \<Rightarrow> (error + (Item option \<times> Qt_Iterator)) option"
where
  "qt_itr_next_goto l itr =
     (case at_next_label l itr of
        Return_item r \<Rightarrow> Some r
      | Goto_next l' itr' \<Rightarrow> qt_itr_next_goto l' itr'
      | Advance itr' \<Rightarrow>
          Option.bind (itr_next_recursive itr')
            (\<lambda>r. case r of
                   Inl e \<Rightarrow> Some (Inl e)
                 | Inr itr'' \<Rightarrow> qt_itr_next_goto ENTER itr''))"

definition qt_itr_next :: "Qt_Iterator \<Rightarrow> (error + (Item option \<times> Qt_Iterator)) option" where
  "qt_itr_next itr = qt_itr_next_goto ENTER itr"

text \<open>The items an iterator yields when \<^verbatim>\<open>qt_itr_next\<close> is called until it returns
  \<^verbatim>\<open>NULL\<close>, in the order of the calls.\<close>

partial_function (option) qt_itr_drain :: "Qt_Iterator \<Rightarrow> (error + Item list) option" where
  "qt_itr_drain itr =
     Option.bind (qt_itr_next itr)
       (\<lambda>r. case r of
              Inl e \<Rightarrow> Some (Inl e)
            | Inr (None, itr') \<Rightarrow> Some (Inr [])
            | Inr (Some itm, itr') \<Rightarrow>
                Option.bind (qt_itr_drain itr')
                  (\<lambda>r'. case r' of
                          Inl e \<Rightarrow> Some (Inl e)
                        | Inr itms \<Rightarrow> Some (Inr (itm # itms))))"

definition qt_query_all :: "QuadTree \<Rightarrow> Quadrant \<Rightarrow> (error + Item list) option" where
  "qt_query_all qt region =
     Option.bind (qt_query_itr qt region)
       (\<lambda>r. case r of Inl e \<Rightarrow> Some (Inl e) | Inr itr \<Rightarrow> qt_itr_drain itr)"

section \<open>The bulk-query wrappers\<close>

text \<open>The result array holds item pointers; an entry is the item pointed to, or \<open>None\<close> for
  \<^verbatim>\<open>NULL\<close> and for memory not yet written. Its length is the allocated capacity. A wrapper
  returns the array and the count it stores through \<^verbatim>\<open>*maxn\<close>; \<open>readable\<close> is what a caller
  that trusts the count reads.\<close>

type_synonym item_array = "Item option list"

definition readable :: "item_array \<times> nat \<Rightarrow> Item option list" where
  "readable r = take (snd r) (fst r)"

text \<open>The loop of \<^verbatim>\<open>qt_query_ary\<close>:
  \<^verbatim>\<open>for (i=0; (items[i] = qt_itr_next(itr)) != NULL; i++)\<close>.\<close>

partial_function (option) qt_query_ary_for ::
  "nat \<Rightarrow> nat \<Rightarrow> item_array \<Rightarrow> nat \<Rightarrow> Qt_Iterator \<Rightarrow> (error + (item_array \<times> nat)) option"
where
  "qt_query_ary_for maxn i items alloced itr =
     Option.bind (qt_itr_next itr)
       (\<lambda>r. case r of
              Inl e \<Rightarrow> Some (Inl e)
            | Inr (res, itr') \<Rightarrow>
                if \<not> i < length items then Some (Inl Out_of_bounds)
                else
                  let items = items[i := res]
                  in if res = None then Some (Inr (items, i))
                     else if maxn > 0 \<and> i \<ge> maxn then Some (Inr (items, i))
                     else if i + 1 \<ge> alloced
                     then qt_query_ary_for maxn (i + 1)
                            (items @ replicate (alloced * 2 - length items) None) (alloced * 2) itr'
                     else qt_query_ary_for maxn (i + 1) items alloced itr')"

definition qt_query_ary :: "QuadTree \<Rightarrow> Quadrant \<Rightarrow> nat \<Rightarrow> (error + (item_array \<times> nat)) option" where
  "qt_query_ary quadtree region maxn =
     (let alloced = 32;
          items = replicate alloced None
      in Option.bind (qt_query_itr quadtree region)
           (\<lambda>r. case r of
                  Inl e \<Rightarrow> Some (Inl e)
                | Inr itr \<Rightarrow> qt_query_ary_for maxn 0 items alloced itr))"

text \<open>\<^verbatim>\<open>_include_leaf\<close>, called with the leaf's count \<open>k\<close> and items \<open>addr\<close>. The counter
  \<^verbatim>\<open>i\<close> is a \<^verbatim>\<open>u_int32_t\<close>: the first loop, \<^verbatim>\<open>for (i=0; i<leaf->n; i++)\<close>, does not end
  when the count exceeds 4294967295, the largest value of \<^verbatim>\<open>i\<close> (\<open>None\<close>), and in the second \<^verbatim>\<open>i\<close> counts the matches
  modulo 2^32. The result is the array, the new \<^verbatim>\<open>*offset\<close> and the new \<^verbatim>\<open>*size\<close>
  (\<open>capacity\<close>).\<close>

fun include_matching :: "Item list \<Rightarrow> Quadrant \<Rightarrow> item_array \<Rightarrow> nat \<Rightarrow> 32 word \<Rightarrow> item_array \<times> 32 word" where
  "include_matching [] quadrant itemsv offsetv i = (itemsv, i)"
| "include_matching (a # addr) quadrant itemsv offsetv i =
     (if in_quadrant a quadrant
      then include_matching addr quadrant (itemsv[offsetv + unat i := Some a]) offsetv (i + 1)
      else include_matching addr quadrant itemsv offsetv i)"

fun include_all :: "Item list \<Rightarrow> item_array \<Rightarrow> nat \<Rightarrow> nat \<Rightarrow> item_array" where
  "include_all [] itemsv offsetv i = itemsv"
| "include_all (a # addr) itemsv offsetv i = include_all addr (itemsv[offsetv + i := Some a]) offsetv (i + 1)"

definition include_leaf ::
  "item_array \<Rightarrow> nat \<Rightarrow> nat \<Rightarrow> 64 word \<Rightarrow> Item list \<Rightarrow> Quadrant \<Rightarrow> bool
   \<Rightarrow> (error + (item_array \<times> nat \<times> nat)) option"
where
  "include_leaf items offset capacity k addr quadrant within_parent =
     (let required = offset + unat k;
          (capacity, items) =
            (if required > capacity
             then (required * 2, items @ replicate (required * 2 - length items) None)
             else (capacity, items))
      in if length addr < unat k then Some (Inl Out_of_bounds)
         else if within_parent then
           (if k > 4294967295 then None
            else Some (Inr (include_all (take (unat k) addr) items offset 0, offset + unat k, capacity)))
         else
           (let (itemsv, i) = include_matching (take (unat k) addr) quadrant items offset 0
            in Some (Inr (itemsv, offset + unat i, capacity))))"

text \<open>The loop of \<^verbatim>\<open>qt_query_ary_fast\<close>: \<^verbatim>\<open>while (itr->lp != NULL)\<close>.\<close>

partial_function (option) qt_query_ary_fast_while ::
  "nat \<Rightarrow> nat \<Rightarrow> item_array \<Rightarrow> nat \<Rightarrow> Qt_Iterator \<Rightarrow> (error + (item_array \<times> nat)) option"
where
  "qt_query_ary_fast_while maxn i items alloced itr =
     (case itr_lp itr of
        None \<Rightarrow> Some (Inr (items, i))
      | Some lp \<Rightarrow>
          if maxn \<noteq> 0 \<and> i \<ge> maxn then Some (Inr (items, i))
          else
            (case as_leaf (itr_quadtree itr) lp of
               Inl e \<Rightarrow> Some (Inl e)
             | Inr (k, addr) \<Rightarrow>
                 (case FRAME itr (itr_so itr) of
                    Inl e \<Rightarrow> Some (Inl e)
                  | Inr f \<Rightarrow>
                      (case include_leaf items i alloced k addr (itr_region itr) (fr_within_parent f) of
                         None \<Rightarrow> None
                       | Some (Inl e) \<Rightarrow> Some (Inl e)
                       | Some (Inr (items', i', alloced')) \<Rightarrow>
                           (let itr = itr\<lparr>itr_so := itr_so itr - 1\<rparr>
                            in case FRAME itr (itr_so itr) of
                                 Inl e \<Rightarrow> Some (Inl e)
                               | Inr p \<Rightarrow>
                                   Option.bind
                                     (itr_next_recursive
                                        (set_FRAME itr (itr_so itr) (p\<lparr>fr_quadrant := fr_quadrant p + 1\<rparr>)))
                                     (\<lambda>r. case r of
                                            Inl e \<Rightarrow> Some (Inl e)
                                          | Inr itr' \<Rightarrow> qt_query_ary_fast_while maxn i' items' alloced' itr'))))))"

definition qt_query_ary_fast :: "QuadTree \<Rightarrow> Quadrant \<Rightarrow> nat \<Rightarrow> (error + (item_array \<times> nat)) option" where
  "qt_query_ary_fast quadtree region maxn =
     (let alloced = 4096 div 8;
          items = replicate alloced None
      in Option.bind (qt_query_itr quadtree region)
           (\<lambda>r. case r of
                  Inl e \<Rightarrow> Some (Inl e)
                | Inr itr \<Rightarrow> qt_query_ary_fast_while maxn 0 items alloced itr))"

text \<open>A finalised tree is made by building and finalising.\<close>

definition qt_build_finalise :: "nat \<Rightarrow> Quadrant \<Rightarrow> BUCKETSIZE \<Rightarrow> Item list \<Rightarrow> error + QuadTree" where
  "qt_build_finalise fuel region maxfill items =
     (case qt_build fuel region maxfill items of
        Inl e \<Rightarrow> Inl e
      | Inr ufqt \<Rightarrow> qt_finalise ufqt)"

declare itr_goto.simps [code]
declare qt_itr_next_goto.simps [code]
declare qt_itr_drain.simps [code]
declare qt_query_ary_for.simps [code]
declare qt_query_ary_fast_while.simps [code]

section \<open>Notions of the specification\<close>

text \<open>The child an item belongs to by the rule ``on the boundary goes north/east'', with
  the midpoints written as the specification writes them.\<close>

definition spec_child :: "Item \<Rightarrow> Quadrant \<Rightarrow> nat" where
  "spec_child item q =
     (let mx = X (sw q) + (X (ne q) - X (sw q)) / 2;
          my = Y (sw q) + (Y (ne q) - Y (sw q)) / 2
      in if X (coords item) \<ge> mx
         then (if Y (coords item) \<ge> my then NE else SE)
         else (if Y (coords item) \<ge> my then NW else SW))"

text \<open>The depth counter as \<^verbatim>\<open>_qt_insert\<close> leaves it behind its first statement.\<close>

definition bump_maxdepth :: "nat \<Rightarrow> UFQuadTree \<Rightarrow> UFQuadTree" where
  "bump_maxdepth depth qt = (if depth > uf_maxdepth qt then qt\<lparr>uf_maxdepth := depth\<rparr> else qt)"

text \<open>Two finalised trees with the same header.\<close>

definition header_eq :: "QuadTree \<Rightarrow> QuadTree \<Rightarrow> bool" where
  "header_eq a b \<longleftrightarrow>
     qt_region a = qt_region b \<and> qt_size a = qt_size b \<and> qt_maxdepth a = qt_maxdepth b \<and>
     qt_ninners a = qt_ninners b \<and> qt_nleafs a = qt_nleafs b"

text \<open>The successful runs of \<^verbatim>\<open>_qt_insert\<close> as a relation, stated from the label \<^verbatim>\<open>RESTART\<close>:
  \<open>inserts qt node item q depth qt' node'\<close> says that the body run on \<open>node\<close> with the
  counters \<open>qt\<close>, the quadrant \<open>q\<close> and the incremented depth \<open>depth\<close> ends with the
  counters \<open>qt'\<close> and the node \<open>node'\<close>; \<open>reinserts\<close> is the loop of \<^verbatim>\<open>_split_node\<close>.
  Lemma \<open>qt_insert_rec_inserts\<close> derives the relation from the function; the invariants
  of the builder are proved by induction over it.\<close>

inductive inserts ::
  "UFQuadTree \<Rightarrow> TransNode \<Rightarrow> Item \<Rightarrow> Quadrant \<Rightarrow> nat \<Rightarrow> UFQuadTree \<Rightarrow> TransNode \<Rightarrow> bool"
and reinserts ::
  "Item list \<Rightarrow> UFQuadTree \<Rightarrow> TransNode \<Rightarrow> Quadrant \<Rightarrow> nat \<Rightarrow> UFQuadTree \<Rightarrow> TransNode \<Rightarrow> bool"
where
  into_child:
    "in_quadrant item q \<Longrightarrow> ASSERT_REGION_SANE q \<Longrightarrow>
     quad = spec_child item q \<Longrightarrow> q' = gen_quadrants_mem q ! quad \<Longrightarrow> ASSERT_REGION_SANE q' \<Longrightarrow>
     qs ! quad = Some child \<Longrightarrow>
     inserts (bump_maxdepth (depth + 1) qt) child item q' (depth + 1) qt' child' \<Longrightarrow>
     inserts qt (TransInner qs) item q depth qt' (TransInner (qs[quad := Some child']))"
| into_new_leaf:
    "in_quadrant item q \<Longrightarrow> ASSERT_REGION_SANE q \<Longrightarrow>
     quad = spec_child item q \<Longrightarrow> q' = gen_quadrants_mem q ! quad \<Longrightarrow> ASSERT_REGION_SANE q' \<Longrightarrow>
     qs ! quad = None \<Longrightarrow>
     inserts (bump_maxdepth (depth + 1) (qt\<lparr>uf_nleafs := uf_nleafs qt + 1\<rparr>))
       (TransLeaf [] 0 (uf_maxfill qt)) item q' (depth + 1) qt' child' \<Longrightarrow>
     inserts qt (TransInner qs) item q depth qt' (TransInner (qs[quad := Some child']))"
| store:
    "in_quadrant item q \<Longrightarrow> ASSERT_REGION_SANE q \<Longrightarrow>
     \<not> k + 1 > sz \<Longrightarrow> unat k < unat sz \<Longrightarrow>
     inserts qt (TransLeaf its k sz) item q depth qt (TransLeaf (its @ [item]) (k + 1) sz)"
| grow:
    "in_quadrant item q \<Longrightarrow> ASSERT_REGION_SANE q \<Longrightarrow>
     k + 1 > sz \<Longrightarrow> \<not> distinct_items_exist (TransLeaf its k sz) \<Longrightarrow> unat k < unat (sz * 2) \<Longrightarrow>
     inserts qt (TransLeaf its k sz) item q depth qt (TransLeaf (its @ [item]) (k + 1) (sz * 2))"
| split:
    "in_quadrant item q \<Longrightarrow> ASSERT_REGION_SANE q \<Longrightarrow>
     k + 1 > sz \<Longrightarrow> distinct_items_exist (TransLeaf its k sz) \<Longrightarrow>
     reinserts (take (unat k) its)
       (qt\<lparr>uf_ninners := uf_ninners qt + 1, uf_nleafs := uf_nleafs qt - 1\<rparr>)
       (TransInner [None, None, None, None]) q depth qt1 (TransInner qs1) \<Longrightarrow>
     inserts qt1 (TransInner qs1) item q depth qt' node' \<Longrightarrow>
     inserts qt (TransLeaf its k sz) item q depth qt' node'"
| reinserts_done:
    "reinserts [] qt node q depth qt node"
| reinserts_next:
    "inserts (bump_maxdepth depth qt) node it q depth qt1 node1 \<Longrightarrow>
     reinserts its qt1 node1 q depth qt' node' \<Longrightarrow>
     reinserts (it # its) qt node q depth qt' node'"

text \<open>Well-formed transient nodes: four child slots in every inner node, and in every leaf
  the counter \<open>leaf_n\<close> is the number of stored pointers.\<close>

fun wf_node :: "TransNode \<Rightarrow> bool" where
  "wf_node (TransInner qs) = (length qs = 4 \<and> (\<forall>c. Some c \<in> set qs \<longrightarrow> wf_node c))"
| "wf_node (TransLeaf its k sz) = (unat k = length its)"

text \<open>Every leaf of the node holds at least one item.\<close>

fun leaves_nonempty :: "TransNode \<Rightarrow> bool" where
  "leaves_nonempty (TransInner qs) = (\<forall>c. Some c \<in> set qs \<longrightarrow> leaves_nonempty c)"
| "leaves_nonempty (TransLeaf its k sz) = (k \<ge> 1)"

text \<open>Every inner node of the node, itself included, has a non-empty child slot.\<close>

fun inners_have_child :: "TransNode \<Rightarrow> bool" where
  "inners_have_child (TransInner qs) =
     ((\<exists>c. Some c \<in> set qs) \<and> (\<forall>c. Some c \<in> set qs \<longrightarrow> inners_have_child c))"
| "inners_have_child (TransLeaf its k sz) = True"

text \<open>A property of every child of the node (of none, for a leaf).\<close>

fun below :: "(TransNode \<Rightarrow> bool) \<Rightarrow> TransNode \<Rightarrow> bool" where
  "below P (TransInner qs) = (\<forall>c. Some c \<in> set qs \<longrightarrow> P c)"
| "below P (TransLeaf its k sz) = True"

text \<open>The items of a node in the order of the traversal: children in the order
  \<^verbatim>\<open>NW, NE, SW, SE\<close>, the items of a leaf in the order of their insertion.\<close>

fun items_of :: "TransNode \<Rightarrow> Item list" where
  "items_of (TransInner qs) = concat (map (\<lambda>c. case c of None \<Rightarrow> [] | Some t \<Rightarrow> items_of t) qs)"
| "items_of (TransLeaf its k sz) = take (unat k) its"

fun n_inners :: "TransNode \<Rightarrow> nat" where
  "n_inners (TransInner qs) = 1 + sum_list (map (\<lambda>c. case c of None \<Rightarrow> 0 | Some t \<Rightarrow> n_inners t) qs)"
| "n_inners (TransLeaf its k sz) = 0"

fun n_leaves :: "TransNode \<Rightarrow> nat" where
  "n_leaves (TransInner qs) = sum_list (map (\<lambda>c. case c of None \<Rightarrow> 0 | Some t \<Rightarrow> n_leaves t) qs)"
| "n_leaves (TransLeaf its k sz) = 1"

text \<open>The number of levels of a node: 1 for a leaf.\<close>

fun height :: "TransNode \<Rightarrow> nat" where
  "height (TransInner qs) = Suc (foldr max (map (\<lambda>c. case c of None \<Rightarrow> 0 | Some t \<Rightarrow> height t) qs) 0)"
| "height (TransLeaf its k sz) = 1"

text \<open>Every item of a leaf lies in the rectangle of the leaf, where the rectangle of a
  child is the one \<^verbatim>\<open>_gen_quadrants\<close> computes from the rectangle of its parent.\<close>

lemma size_child: "Some c \<in> set qs \<Longrightarrow> size c < Suc (size_list (size_option size) qs)"
  by (induction qs) auto

function in_region :: "Quadrant \<Rightarrow> TransNode \<Rightarrow> bool" where
  "in_region q (TransInner qs) =
     (\<forall>(cq, oc) \<in> set (zip (gen_quadrants_mem q) qs). \<forall>c. oc = Some c \<longrightarrow> in_region cq c)"
| "in_region q (TransLeaf its k sz) = (\<forall>i \<in> set (take (unat k) its). in_quadrant i q)"
  by pat_completeness auto
termination
  by (relation "measure (\<lambda>(q, t). size t)") (auto dest!: set_zip_rightD size_child)

text \<open>A node on level \<open>d\<close> of the tree (the root is on level 1) whose deepest level is at
  most \<open>m\<close>.\<close>

definition fits :: "nat \<Rightarrow> nat \<Rightarrow> TransNode \<Rightarrow> bool" where
  "fits d m node \<longleftrightarrow> height node + d \<le> m + 1"

text \<open>The invariant of a builder between two calls of \<^verbatim>\<open>qt_insert\<close>: the root is a
  well-formed inner node, no leaf is empty, every inner node under the root has a child,
  every item lies in the rectangle of its leaf, the counters of inner nodes and leaves are
  exact, and no node under the root lies deeper than \<^verbatim>\<open>maxdepth\<close> levels.\<close>

definition builder_ok :: "UFQuadTree \<Rightarrow> bool" where
  "builder_ok B \<longleftrightarrow>
     is_inner (uf_root B) \<and> wf_node (uf_root B) \<and> leaves_nonempty (uf_root B) \<and>
     below inners_have_child (uf_root B) \<and> in_region (uf_region B) (uf_root B) \<and>
     uf_ninners B = n_inners (uf_root B) \<and> uf_nleafs B = n_leaves (uf_root B) \<and>
     below (fits 2 (uf_maxdepth B)) (uf_root B)"

text \<open>The bytes the leaves of a node take in the finalised buffer.\<close>

fun leaf_bytes :: "TransNode \<Rightarrow> nat" where
  "leaf_bytes (TransInner qs) = sum_list (map (\<lambda>c. case c of None \<Rightarrow> 0 | Some t \<Rightarrow> leaf_bytes t) qs)"
| "leaf_bytes (TransLeaf its k sz) = sizeof_Leaf + unat k * sizeof_Item"

text \<open>\<open>repr T S a node\<close>: the finalised buffer \<open>T\<close> holds \<open>node\<close> at address \<open>a\<close>, and the
  addresses of all its nodes lie in \<open>S\<close>. An inner node lies before \<^verbatim>\<open>MEM_LEAFS\<close> and
  has the offset \<^verbatim>\<open>ROOT\<close> exactly in the slots of its absent children; a leaf lies at
  or behind \<^verbatim>\<open>MEM_LEAFS\<close> and holds the count and the items of the bucket.\<close>

function repr :: "QuadTree \<Rightarrow> nat set \<Rightarrow> nat \<Rightarrow> TransNode \<Rightarrow> bool" where
  "repr T S a (TransInner qs) =
     (a \<in> S \<and> a < MEM_LEAFS T \<and>
      (\<exists>offs. qt_mem T a = Some (Node_Inner offs) \<and> length offs = length qs \<and>
         (\<forall>(off, oc) \<in> set (zip offs qs).
            case oc of None \<Rightarrow> off = ROOT | Some c \<Rightarrow> off \<noteq> ROOT \<and> repr T S off c)))"
| "repr T S a (TransLeaf its k sz) =
     (a \<in> S \<and> MEM_LEAFS T \<le> a \<and>
      qt_mem T a = Some (Node_Leaf (ucast k) (take (unat k) its)))"
  by pat_completeness auto
termination
  by (relation "measure (\<lambda>(T, S, a, t). size t)") (auto dest!: set_zip_rightD size_child)

text \<open>The addresses \<^verbatim>\<open>_qt_finalise\<close> writes for a subtree with \<open>ni\<close> inner nodes and
  \<open>lb\<close> bytes of leaves, when \<open>N\<close> inner nodes are finalised and the next leaf starts at
  \<open>L\<close>.\<close>

definition area :: "nat \<Rightarrow> nat \<Rightarrow> nat \<Rightarrow> nat \<Rightarrow> nat set" where
  "area N L ni lb =
     {b. sizeof_Inner * N \<le> b \<and> b < sizeof_Inner * (N + ni)} \<union> {b. L \<le> b \<and> b < L + lb}"

text \<open>The offsets of the inner node at an address, as \<open>set_inner_quadrant\<close> reads them.\<close>

definition offsets_at :: "QuadTree \<Rightarrow> nat \<Rightarrow> nat list" where
  "offsets_at T a = (case qt_mem T a of Some (Node_Inner qs) \<Rightarrow> qs | _ \<Rightarrow> replicate 4 0)"

text \<open>The inner nodes and the leaf bytes of a list of child slots.\<close>

definition inners_in :: "TransNode option list \<Rightarrow> nat" where
  "inners_in cs = sum_list (map (\<lambda>c. case c of None \<Rightarrow> 0 | Some t \<Rightarrow> n_inners t) cs)"

definition bytes_in :: "TransNode option list \<Rightarrow> nat" where
  "bytes_in cs = sum_list (map (\<lambda>c. case c of None \<Rightarrow> 0 | Some t \<Rightarrow> leaf_bytes t) cs)"

text \<open>The part of the buffer for \<open>ni\<close> more inner nodes and \<open>lb\<close> more leaf bytes is
  free: the inner nodes end before \<^verbatim>\<open>MEM_LEAFS\<close>, the next leaf starts at or behind it,
  and nothing is written there yet.\<close>

definition layout_free :: "FinaliseState \<Rightarrow> nat \<Rightarrow> nat \<Rightarrow> bool" where
  "layout_free st ni lb \<longleftrightarrow>
     sizeof_Inner * (st_ninners st + ni) \<le> MEM_LEAFS (st_quadtree st) \<and>
     MEM_LEAFS (st_quadtree st) \<le> st_next_leaf st \<and>
     (\<forall>b \<in> area (st_ninners st) (st_next_leaf st) ni lb. qt_mem (st_quadtree st) b = None)"

text \<open>The cursors advanced by \<open>ni\<close> inner nodes and \<open>lb\<close> leaf bytes, the header kept.\<close>

definition advanced :: "FinaliseState \<Rightarrow> FinaliseState \<Rightarrow> nat \<Rightarrow> nat \<Rightarrow> bool" where
  "advanced st st' ni lb \<longleftrightarrow>
     st_ninners st' = st_ninners st + ni \<and> st_next_leaf st' = st_next_leaf st + lb \<and>
     header_eq (st_quadtree st') (st_quadtree st)"

text \<open>What finalising a node leaves behind: the cursors advanced by the node's inner
  nodes and leaf bytes, the buffer changed only in the node's own area, and the node
  represented at the address it was given.\<close>

definition node_written :: "TransNode \<Rightarrow> FinaliseState \<Rightarrow> FinaliseState \<Rightarrow> bool" where
  "node_written t st st' \<longleftrightarrow>
     advanced st st' (n_inners t) (leaf_bytes t) \<and>
     (\<forall>b. b \<notin> area (st_ninners st) (st_next_leaf st) (n_inners t) (leaf_bytes t) \<longrightarrow>
          qt_mem (st_quadtree st') b = qt_mem (st_quadtree st) b) \<and>
     repr (st_quadtree st') (area (st_ninners st) (st_next_leaf st) (n_inners t) (leaf_bytes t))
       (st_cur_node st) t"

text \<open>What the loop over the child slots \<open>cs\<close>, from slot \<open>i\<close> on, of the inner node at
  \<open>inner\<close> leaves behind: besides the children's area only the node at \<open>inner\<close> changed,
  its slots before \<open>i\<close> are kept, and the slots from \<open>i\<close> on hold \<^verbatim>\<open>ROOT\<close> for an absent
  child and the address of the represented child otherwise.\<close>

definition slots_written ::
  "nat \<Rightarrow> nat \<Rightarrow> TransNode option list \<Rightarrow> FinaliseState \<Rightarrow> FinaliseState \<Rightarrow> bool"
where
  "slots_written inner i cs st st' \<longleftrightarrow>
     advanced st st' (inners_in cs) (bytes_in cs) \<and>
     (\<forall>b. b \<noteq> inner \<longrightarrow> b \<notin> area (st_ninners st) (st_next_leaf st) (inners_in cs) (bytes_in cs) \<longrightarrow>
          qt_mem (st_quadtree st') b = qt_mem (st_quadtree st) b) \<and>
     (cs \<noteq> [] \<longrightarrow> qt_mem (st_quadtree st') inner = Some (Node_Inner (offsets_at (st_quadtree st') inner))) \<and>
     length (offsets_at (st_quadtree st') inner) = i + length cs \<and>
     (\<forall>j<i. offsets_at (st_quadtree st') inner ! j = offsets_at (st_quadtree st) inner ! j) \<and>
     (\<forall>j<length cs.
        case cs ! j of
          None \<Rightarrow> offsets_at (st_quadtree st') inner ! (i + j) = ROOT
        | Some c \<Rightarrow> offsets_at (st_quadtree st') inner ! (i + j) \<noteq> ROOT \<and>
            repr (st_quadtree st') (area (st_ninners st) (st_next_leaf st) (inners_in cs) (bytes_in cs))
              (offsets_at (st_quadtree st') inner ! (i + j)) c)"

text \<open>The nodes of a finalised tree that a traversal from the root reaches: the root, and
  from an inner node every child whose offset is not \<^verbatim>\<open>ROOT\<close>.\<close>

inductive reaches :: "QuadTree \<Rightarrow> nat \<Rightarrow> bool" for T where
  reaches_root: "reaches T MEM_ROOT"
| reaches_child:
    "reaches T a \<Longrightarrow> IS_INNER T a \<Longrightarrow> as_inner T a = Inr offs \<Longrightarrow> i < length offs \<Longrightarrow>
     offs ! i \<noteq> ROOT \<Longrightarrow> reaches T (MEM_INNERS + offs ! i)"

text \<open>The items a traversal of a node yields for the query region \<open>R\<close>, when \<open>q\<close> is the
  rectangle of the node: the children whose rectangle overlaps \<open>R\<close> in the order
  \<^verbatim>\<open>NW, NE, SW, SE\<close>, and of a leaf the items inside \<open>R\<close>.\<close>

function query_spec :: "Quadrant \<Rightarrow> Quadrant \<Rightarrow> TransNode \<Rightarrow> Item list" where
  "query_spec R q (TransInner qs) =
     concat (map (\<lambda>(cq, oc). case oc of
                                None \<Rightarrow> []
                              | Some c \<Rightarrow> if OVERLAP R cq then query_spec R cq c else [])
                 (zip (gen_quadrants_mem q) qs))"
| "query_spec R q (TransLeaf its k sz) = filter (\<lambda>i. in_quadrant i R) (take (unat k) its)"
  by pat_completeness auto
termination
  by (relation "measure (\<lambda>(R, q, t). size t)") (auto dest!: set_zip_rightD size_child)

text \<open>The items still to come when \<^verbatim>\<open>qt_itr_next\<close> is at one of its labels, and when
  \<^verbatim>\<open>_itr_next_recursive\<close> is at one of its labels inside a call of \<^verbatim>\<open>qt_itr_next\<close>.\<close>

definition cons_result :: "Item \<Rightarrow> error + Item list \<Rightarrow> (error + Item list) option" where
  "cons_result itm r = (case r of Inl e \<Rightarrow> Some (Inl e) | Inr itms \<Rightarrow> Some (Inr (itm # itms)))"

definition drain_from :: "next_label \<Rightarrow> Qt_Iterator \<Rightarrow> (error + Item list) option" where
  "drain_from l itr =
     Option.bind (qt_itr_next_goto l itr)
       (\<lambda>r. case r of
              Inl e \<Rightarrow> Some (Inl e)
            | Inr (None, itr') \<Rightarrow> Some (Inr [])
            | Inr (Some itm, itr') \<Rightarrow> Option.bind (qt_itr_drain itr') (cons_result itm))"

definition descend_from :: "label \<Rightarrow> Qt_Iterator \<Rightarrow> (error + Item list) option" where
  "descend_from l itr =
     Option.bind (itr_goto l itr)
       (\<lambda>r. case r of Inl e \<Rightarrow> Some (Inl e) | Inr itr' \<Rightarrow> qt_itr_drain itr')"

definition prepend :: "Item list \<Rightarrow> (error + Item list) option \<Rightarrow> (error + Item list) option" where
  "prepend xs r = map_option (map_sum id ((@) xs)) r"

text \<open>\<open>frame_left s itr itr'\<close>: the iterator has left the frame \<open>s\<close>; the frames below are
  as they were, with the child index of the parent's frame advanced.
  \<open>same_below s itr itr'\<close>: the frames below \<open>s\<close> are as they were.\<close>

definition frame_left :: "nat \<Rightarrow> Qt_Iterator \<Rightarrow> Qt_Iterator \<Rightarrow> bool" where
  "frame_left s itr itr' \<longleftrightarrow>
     itr_so itr' = int s - 1 \<and> itr_region itr' = itr_region itr \<and>
     itr_quadtree itr' = itr_quadtree itr \<and>
     length (itr_stack itr') = length (itr_stack itr) \<and>
     (\<forall>j. Suc j < s \<longrightarrow> itr_stack itr' ! j = itr_stack itr ! j) \<and>
     (\<forall>j. Suc j = s \<longrightarrow>
        itr_stack itr' ! j = (itr_stack itr ! j)\<lparr>fr_quadrant := fr_quadrant (itr_stack itr ! j) + 1\<rparr>)"

definition same_below :: "nat \<Rightarrow> Qt_Iterator \<Rightarrow> Qt_Iterator \<Rightarrow> bool" where
  "same_below s itr itr' \<longleftrightarrow>
     itr_region itr' = itr_region itr \<and> itr_quadtree itr' = itr_quadtree itr \<and>
     length (itr_stack itr') = length (itr_stack itr) \<and>
     (\<forall>j. j < s \<longrightarrow> itr_stack itr' ! j = itr_stack itr ! j)"

text \<open>The items of the child in slot \<open>j\<close> that a traversal yields.\<close>

definition slot_items :: "Quadrant \<Rightarrow> Quadrant \<Rightarrow> TransNode option list \<Rightarrow> nat \<Rightarrow> Item list" where
  "slot_items R q qs j =
     (case qs ! j of
        None \<Rightarrow> []
      | Some c \<Rightarrow> if OVERLAP R (gen_quadrants_mem q ! j) then query_spec R (gen_quadrants_mem q ! j) c else [])"

text \<open>\<open>visits T R s a cq t\<close>: whenever \<^verbatim>\<open>_itr_next_recursive\<close> starts at \<open>RECURSE\<close> with the
  frame \<open>s\<close> freshly set up for the node \<open>t\<close> at address \<open>a\<close> with rectangle \<open>cq\<close>, on a
  stack deep enough for \<open>t\<close>, the iterator yields the items \<open>query_spec R cq t\<close> and then
  continues at \<open>WHILE_SO\<close> having left the frame.\<close>

definition visits :: "QuadTree \<Rightarrow> Quadrant \<Rightarrow> nat \<Rightarrow> nat \<Rightarrow> Quadrant \<Rightarrow> TransNode \<Rightarrow> bool" where
  "visits T R s a cq t \<longleftrightarrow>
     (\<forall>itr. itr_quadtree itr = T \<longrightarrow> itr_region itr = R \<longrightarrow> itr_so itr = int s \<longrightarrow>
        fits (Suc s) (length (itr_stack itr)) t \<longrightarrow>
        fr_node (itr_stack itr ! s) = a \<longrightarrow>
        fr_quadrants (itr_stack itr ! s) = gen_quadrants_mem cq \<longrightarrow>
        fr_quadrant (itr_stack itr ! s) = 0 \<longrightarrow>
        (\<forall>p. Suc p = s \<longrightarrow> IS_INNER T (fr_node (itr_stack itr ! p))) \<longrightarrow>
        (is_inner t \<or> 1 \<le> s) \<longrightarrow>
        (\<exists>itr'. frame_left s itr itr' \<and>
           descend_from RECURSE itr = prepend (query_spec R cq t) (descend_from WHILE_SO itr')))"

section \<open>Insertion: classification and split policy\<close>

lemma quad_cases:
  "EAST 0 = 1" "WEST 0 = 0" "NORTH 0 = 0" "NORTH 1 = 1" "SOUTH 0 = 2" "SOUTH 1 = 3"
  "NORTH (Suc 0) = 1" "SOUTH (Suc 0) = 3"
  by (simp_all add: EAST_def WEST_def NORTH_def SOUTH_def quadindex_defs)

lemma spec_child_less: "spec_child item q < 4"
  by (simp add: spec_child_def quadindex_defs Let_def)

lemma insert_inner_elim:
  assumes "insert_inner ins qt qs item q depth = Inr (qt', node')"
  shows "\<exists>qt0 child child'.
           (qt0, child) = (case qs ! spec_child item q of None \<Rightarrow> init_leaf_node qt | Some c \<Rightarrow> (qt, c)) \<and>
           ASSERT_REGION_SANE (gen_quadrants_mem q ! spec_child item q) \<and>
           ins qt0 child item (gen_quadrants_mem q ! spec_child item q) depth = Inr (qt', child') \<and>
           node' = TransInner (qs[spec_child item q := Some child'])"
proof (cases q)
  case (fields qne qsw)
  show ?thesis
    using assms unfolding fields
    by (auto simp add: insert_inner_def spec_child_def gen_quadrants_mem_def CALCDIVS_def Let_def
          quad_cases quadindex_defs
        split: if_splits prod.splits sum.splits option.splits)
qed

lemma qt_insert_rec_Suc:
  "qt_insert_rec (Suc fuel) qt node item q depth =
     qt_insert_restart (qt_insert_rec fuel) (bump_maxdepth (depth + 1) qt) node item q (depth + 1)"
  by (simp add: bump_maxdepth_def Let_def)



lemma itemcmp_lexicographic:
  "itemcmp a b =
     (if X (coords a) < X (coords b) then - 1
      else if X (coords a) > X (coords b) then 1
      else if Y (coords a) < Y (coords b) then - 1
      else if Y (coords a) > Y (coords b) then 1
      else 0)"
  by (simp add: itemcmp_def FLOATcmp_def Let_def)

lemma itemcmp_eq0: "itemcmp a b = 0 \<longleftrightarrow> coords a = coords b"
  by (auto simp: itemcmp_def FLOATcmp_def Let_def prod_eq_iff split: if_splits)

text \<open>Comparing neighbours finds a distinct pair exactly when some two items of the bucket
  differ: equality of coordinates is transitive.\<close>

lemma distinct_scan_iff:
  "distinct_scan xs \<longleftrightarrow> (\<exists>a\<in>set xs. \<exists>b\<in>set xs. itemcmp a b \<noteq> 0)"
proof (induction xs rule: distinct_scan.induct)
  case (1 a b rest)
  show ?case
  proof (cases "itemcmp a b = 0")
    case True
    then have "coords a = coords b" by (simp add: itemcmp_eq0)
    with 1 True show ?thesis by (auto simp: itemcmp_eq0)
  next
    case False
    then show ?thesis by auto
  qed
qed (auto simp: itemcmp_eq0)

lemma split_loop_Inl:
  "fold (\<lambda>it r. case r of Inl e \<Rightarrow> Inl e | Inr (qt, node) \<Rightarrow> ins qt node it q d) its (Inl e) = Inl e"
  by (induction its) auto

lemma split_loop_fold:
  "split_loop ins its qt node q depth =
     fold (\<lambda>it r. case r of Inl e \<Rightarrow> Inl e | Inr (qt, node) \<Rightarrow> ins qt node it q (depth - 1))
       its (Inr (qt, node))"
  by (induction its arbitrary: qt node) (auto simp: split_loop_Inl split: sum.splits)


section \<open>Finalisation keeps the header\<close>

lemma header_eq_refl [simp]: "header_eq a a"
  by (simp add: header_eq_def)

lemma header_eq_set_inner [simp]: "header_eq (set_inner_quadrant a i v T) T' = header_eq T T'"
  by (simp add: header_eq_def set_inner_quadrant_def)

lemma header_eq_set_inner2 [simp]: "header_eq T' (set_inner_quadrant a i v T) = header_eq T' T"
  by (simp add: header_eq_def set_inner_quadrant_def)

lemma finalise_node_header:
  "qt_finalise_node t st = Inr st' \<Longrightarrow> header_eq (st_quadtree st') (st_quadtree st)"
  "qt_finalise_for inner i cs st = Inr st' \<Longrightarrow> header_eq (st_quadtree st') (st_quadtree st)"
proof (induction t st and inner i cs st arbitrary: st' and st'
    rule: qt_finalise_node_qt_finalise_for.induct)
  case (1 qs st)
  then show ?case by (simp add: Let_def)
next
  case (2 its k sz st)
  then show ?case by (auto simp: qt_finalise_leaf_def Let_def header_eq_def split: if_splits)
next
  case (3 inner i st)
  then show ?case by simp
next
  case (4 inner i cs st)
  then show ?case by simp
next
  case (5 inner i c cs st)
  from "5.prems" obtain st1 where
    a: "qt_finalise_node c
          (st\<lparr>st_cur_node := (if is_inner c then MEM_INNERS + sizeof_Inner * st_ninners st
                               else st_next_leaf st),
              st_quadtree := set_inner_quadrant inner i
                ((if is_inner c then MEM_INNERS + sizeof_Inner * st_ninners st
                  else st_next_leaf st) - MEM_INNERS) (st_quadtree st)\<rparr>) = Inr st1"
    and b: "qt_finalise_for inner (i + 1) cs st1 = Inr st'"
    by (auto simp: Let_def split: sum.splits)
  from "5.IH"(1) [OF refl refl] a have "header_eq (st_quadtree st1) (st_quadtree st)"
    by simp
  moreover from "5.IH"(2) [OF refl refl _ b] a have "header_eq (st_quadtree st') (st_quadtree st1)"
    by simp
  ultimately show ?case by (simp add: header_eq_def)
qed

lemma qt_finalise_header:
  assumes "qt_finalise ufqt = Inr T"
  shows "header_eq T (init_quadtree ufqt)"
  using assms finalise_node_header(1)
  by (fastforce simp: qt_finalise_def Let_def split: sum.splits)

section \<open>The iterator stack of an empty tree\<close>

lemma finalise_empty_ok:
  "\<exists>T. qt_finalise (qt_create_quadtree region maxfill) = Inr T"
  by (simp add: qt_finalise_def qt_create_quadtree_def init_quadtree_def nullify_quadrants_def Let_def)

text \<open>
  \<^bold>\<open>C4.\<close> \<open>qt_query_itr\<close> allocates \<open>maxdepth\<close> frames, not \<open>maxdepth + 1\<close>. The tree
  finalised from a builder without items has \<open>maxdepth = 0\<close>: the stack has no frame, and
  the write of the root frame \<open>stack[0]\<close> is outside the allocation, for every query
  region.
\<close>

theorem empty_tree_root_frame_out_of_bounds:
  "\<exists>T. qt_finalise (qt_create_quadtree region maxfill) = Inr T \<and>
       qt_maxdepth T = 0 \<and>
       qt_query_itr T Q = Some (Inl Out_of_bounds)"
proof -
  obtain T where T: "qt_finalise (qt_create_quadtree region maxfill) = Inr T"
    using finalise_empty_ok by blast
  from qt_finalise_header [OF T] have "qt_maxdepth T = 0"
    by (simp add: header_eq_def init_quadtree_def qt_create_quadtree_def)
  then have "qt_query_itr T Q = Some (Inl Out_of_bounds)"
    by (simp add: qt_query_itr_def FRAME_def)
  with T \<open>qt_maxdepth T = 0\<close> show ?thesis by blast
qed

section \<open>The length parameter of the bulk-query wrappers\<close>

text \<open>
  \<^bold>\<open>C9.\<close> A tree with bucket size 2 holding two items in one leaf, queried over its
  whole region with \<open>max_n = 1\<close>: \<open>qt_query_ary_fast\<close> returns both items and writes the
  count 2 back, because it tests the limit only between leaves; \<open>qt_query_ary\<close> returns
  the first item and the count 1.
\<close>

theorem fast_wrapper_exceeds_maxn:
  "(case qt_build_finalise 2 \<lparr>ne = (10, 10), sw = (0, 0)\<rparr> 2
           [\<lparr>ivalue = 1, coords = (1, 1)\<rparr>, \<lparr>ivalue = 2, coords = (2, 2)\<rparr>] of
      Inl e \<Rightarrow> False
    | Inr T \<Rightarrow>
        map_option (map_sum id (\<lambda>r. (readable r, snd r)))
          (qt_query_ary_fast T \<lparr>ne = (10, 10), sw = (0, 0)\<rparr> 1)
          = Some (Inr ([Some \<lparr>ivalue = 1, coords = (1, 1)\<rparr>, Some \<lparr>ivalue = 2, coords = (2, 2)\<rparr>], 2)) \<and>
        map_option (map_sum id (\<lambda>r. (readable r, snd r)))
          (qt_query_ary T \<lparr>ne = (10, 10), sw = (0, 0)\<rparr> 1)
          = Some (Inr ([Some \<lparr>ivalue = 1, coords = (1, 1)\<rparr>], 1)))"
  by code_simp

section \<open>The successful runs of the insertion\<close>

lemma inserts_inner_stays:
  "inserts qt node item q depth qt' node' \<Longrightarrow> is_inner node \<Longrightarrow> is_inner node'"
  "reinserts its qt node q depth qt' node' \<Longrightarrow> is_inner node \<Longrightarrow> is_inner node'"
  by (induction rule: inserts_reinserts.inducts) auto

lemma restart_inner:
  "qt_insert_restart ins qt (TransInner qs) item q depth =
     (if \<not> in_quadrant item q \<or> \<not> ASSERT_REGION_SANE q then Inl Assert_failed
      else insert_inner ins qt qs item q depth)"
  by (simp add: qt_insert_restart_def)

lemma split_loop_reinserts:
  assumes IH: "\<And>qt node item q d qt' node'.
      ins qt node item q d = Inr (qt', node') \<Longrightarrow>
      inserts (bump_maxdepth (d + 1) qt) node item q (d + 1) qt' node'"
    and "split_loop ins its qt node q depth = Inr (qt', node')"
    and "depth \<ge> 1"
  shows "reinserts its qt node q depth qt' node'"
  using assms(2)
proof (induction its arbitrary: qt node)
  case Nil
  then show ?case by (auto intro: reinserts_done)
next
  case (Cons it its)
  from Cons.prems obtain qt1 node1 where
    a: "ins qt node it q (depth - 1) = Inr (qt1, node1)"
    and b: "split_loop ins its qt1 node1 q depth = Inr (qt', node')"
    by (auto split: sum.splits)
  from IH [OF a] \<open>depth \<ge> 1\<close> have "inserts (bump_maxdepth depth qt) node it q depth qt1 node1"
    by simp
  with Cons.IH [OF b] show ?case by (rule reinserts_next [rotated])
qed

lemma restart_inserts:
  assumes IH: "\<And>qt node item q d qt' node'.
      ins qt node item q d = Inr (qt', node') \<Longrightarrow>
      inserts (bump_maxdepth (d + 1) qt) node item q (d + 1) qt' node'"
    and run: "qt_insert_restart ins qt node item q depth = Inr (qt', node')"
    and "depth \<ge> 1"
  shows "inserts qt node item q depth qt' node'"
proof -
  have inner: "inserts qt0 (TransInner qs) item q depth qt' node'"
    if "insert_inner ins qt0 qs item q depth = Inr (qt', node')" "in_quadrant item q" "ASSERT_REGION_SANE q"
    for qt0 qs
  proof -
    from insert_inner_elim [OF that(1)] obtain qt1 child child' where
      pick: "(qt1, child) = (case qs ! spec_child item q of None \<Rightarrow> init_leaf_node qt0 | Some c \<Rightarrow> (qt0, c))"
      and sane: "ASSERT_REGION_SANE (gen_quadrants_mem q ! spec_child item q)"
      and call: "ins qt1 child item (gen_quadrants_mem q ! spec_child item q) depth = Inr (qt', child')"
      and res: "node' = TransInner (qs[spec_child item q := Some child'])"
      by blast
    note rel = IH [OF call]
    show ?thesis
    proof (cases "qs ! spec_child item q")
      case None
      with pick have "qt1 = qt0\<lparr>uf_nleafs := uf_nleafs qt0 + 1\<rparr>" "child = TransLeaf [] 0 (uf_maxfill qt0)"
        by (simp_all add: init_leaf_node_def)
      with rel res show ?thesis
        using into_new_leaf [OF that(2,3) refl refl sane None] by simp
    next
      case (Some c)
      with pick have "qt1 = qt0" "child = c" by simp_all
      with rel res show ?thesis
        using into_child [OF that(2,3) refl refl sane Some] by simp
    qed
  qed
  from run have pre: "in_quadrant item q" "ASSERT_REGION_SANE q"
    by (auto simp: qt_insert_restart_def split: if_splits)
  show ?thesis
  proof (cases node)
    case (TransInner qs)
    with run pre show ?thesis by (auto simp: restart_inner intro: inner)
  next
    case (TransLeaf its k sz)
    show ?thesis
    proof (cases "k + 1 > sz")
      case False
      with run TransLeaf pre show ?thesis
        by (auto simp: qt_insert_restart_def ensure_bucket_size_def split: if_splits intro: store)
    next
      case over: True
      show ?thesis
      proof (cases "distinct_items_exist node")
        case False
        with run TransLeaf pre over show ?thesis
          by (auto simp: qt_insert_restart_def ensure_bucket_size_def split_node_def
                split: if_splits intro: grow)
      next
        case True
        from run TransLeaf pre over True obtain qt1 node1 where
          loop: "split_loop ins (take (unat k) its)
                   (qt\<lparr>uf_ninners := uf_ninners qt + 1, uf_nleafs := uf_nleafs qt - 1\<rparr>)
                   (TransInner [None, None, None, None]) q depth = Inr (qt1, node1)"
          and rest: "(case node1 of
                       TransInner qs \<Rightarrow> insert_inner ins qt1 qs item q depth
                     | TransLeaf its' k' sz' \<Rightarrow>
                         if unat k' < unat sz' then Inr (qt1, TransLeaf (its' @ [item]) (k' + 1) sz')
                         else Inl Out_of_bounds) = Inr (qt', node')"
          by (auto simp: qt_insert_restart_def ensure_bucket_size_def split_node_def Let_def
                nullify_quadrants_def split: if_splits sum.splits TransNode.splits)
        from split_loop_reinserts [OF IH loop \<open>depth \<ge> 1\<close>]
        have re: "reinserts (take (unat k) its)
                   (qt\<lparr>uf_ninners := uf_ninners qt + 1, uf_nleafs := uf_nleafs qt - 1\<rparr>)
                   (TransInner [None, None, None, None]) q depth qt1 node1" .
        from inserts_inner_stays(2) [OF re] obtain qs1 where node1: "node1 = TransInner qs1"
          by (cases node1) auto
        from rest node1 have "insert_inner ins qt1 qs1 item q depth = Inr (qt', node')" by simp
        from inner [OF this pre] have "inserts qt1 (TransInner qs1) item q depth qt' node'" .
        with re node1 TransLeaf pre over True show ?thesis
          by (auto intro: split)
      qed
    qed
  qed
qed

lemma qt_insert_rec_inserts:
  "qt_insert_rec fuel qt node item q d = Inr (qt', node') \<Longrightarrow>
     inserts (bump_maxdepth (d + 1) qt) node item q (d + 1) qt' node'"
proof (induction fuel arbitrary: qt node item q d qt' node')
  case 0
  then show ?case by simp
next
  case (Suc fuel)
  from Suc.prems have "qt_insert_restart (qt_insert_rec fuel) (bump_maxdepth (d + 1) qt) node item q (d + 1)
      = Inr (qt', node')"
    by (simp only: qt_insert_rec_Suc)
  from restart_inserts [OF Suc.IH this] show ?case by simp
qed

section \<open>Invariants of the builder\<close>

lemma four: "length qs = 4 \<Longrightarrow> \<exists>a b c d. qs = [a, b, c, d]"
  by (auto simp: numeral_eq_Suc length_Suc_conv)

lemma less4: "(i::nat) < 4 \<Longrightarrow> i = 0 \<or> i = 1 \<or> i = 2 \<or> i = 3"
  by arith

lemma child_updated:
  "Some c \<in> set (qs[i := Some c']) \<Longrightarrow> c = c' \<or> Some c \<in> set qs"
  using set_update_subset_insert [of qs i "Some c'"] by auto

lemma child_at: "length qs = 4 \<Longrightarrow> qs ! spec_child item q = Some c \<Longrightarrow> Some c \<in> set qs"
  using nth_mem [of "spec_child item q" qs] spec_child_less [of item q] by simp

lemma unat_succ_bounded:
  fixes k sz :: "32 word"
  assumes "unat k < unat sz"
  shows "unat (k + 1) = Suc (unat k)"
proof -
  have "unat sz < 2 ^ LENGTH(32)" by (rule unsigned_less)
  then have "unat sz < 2 ^ 32" by simp
  with assms have "unat k + 1 < 2 ^ 32" by simp
  then show ?thesis by (simp add: unat_word_ariths)
qed

lemma wf_node_update:
  "wf_node (TransInner qs) \<Longrightarrow> wf_node c' \<Longrightarrow> wf_node (TransInner (qs[i := Some c']))"
  by (auto dest: child_updated)

lemma inserts_wf:
  "inserts qt node item q depth qt' node' \<Longrightarrow> wf_node node \<Longrightarrow> wf_node node'"
  "reinserts its qt node q depth qt' node' \<Longrightarrow> wf_node node \<Longrightarrow> wf_node node'"
proof (induction rule: inserts_reinserts.inducts)
  case (into_child item q quad q' qs child depth qt qt' child')
  then have "wf_node child'" by (auto dest: child_at)
  with into_child.prems show ?case by (intro wf_node_update)
next
  case (into_new_leaf item q quad q' qs depth qt qt' child')
  then have "wf_node child'" by simp
  with into_new_leaf.prems show ?case by (intro wf_node_update)
next
  case store
  then show ?case by (simp add: unat_succ_bounded)
next
  case grow
  then show ?case by (simp add: unat_succ_bounded)
qed simp_all

lemma leaves_nonempty_update:
  "leaves_nonempty (TransInner qs) \<Longrightarrow> leaves_nonempty c' \<Longrightarrow> leaves_nonempty (TransInner (qs[i := Some c']))"
  by (auto dest: child_updated)

lemma succ_ge1:
  fixes k sz :: "32 word"
  assumes "unat k < unat sz"
  shows "k + 1 \<ge> 1"
  using unat_succ_bounded [OF assms] by (simp add: word_le_nat_alt)

lemma inserts_leaves_nonempty:
  "inserts qt node item q depth qt' node' \<Longrightarrow> wf_node node \<Longrightarrow>
     (is_inner node \<longrightarrow> leaves_nonempty node) \<Longrightarrow> leaves_nonempty node'"
  "reinserts its qt node q depth qt' node' \<Longrightarrow> wf_node node \<Longrightarrow>
     (is_inner node \<longrightarrow> leaves_nonempty node) \<Longrightarrow> (is_inner node' \<longrightarrow> leaves_nonempty node')"
proof (induction rule: inserts_reinserts.inducts)
  case (into_child item q quad q' qs child depth qt qt' child')
  then have "Some child \<in> set qs" by (auto dest: child_at)
  with into_child have "leaves_nonempty child'" by auto
  with into_child.prems show ?case by (auto intro: leaves_nonempty_update simp del: leaves_nonempty.simps)
next
  case (into_new_leaf item q quad q' qs depth qt qt' child')
  then have "leaves_nonempty child'" by simp
  with into_new_leaf.prems show ?case by (auto intro: leaves_nonempty_update simp del: leaves_nonempty.simps)
next
  case store
  then show ?case by (simp add: succ_ge1)
next
  case grow
  then show ?case by (simp add: succ_ge1)
next
  case (split item q k sz its qt depth qt1 qs1 qt' node')
  from split.hyps(5) have "wf_node (TransInner qs1)" by (rule inserts_wf(2)) simp
  with split show ?case by simp
next
  case reinserts_done
  then show ?case by simp
next
  case (reinserts_next depth qt node it q qt1 node1 its qt' node')
  from reinserts_next.hyps(1) reinserts_next.prems(1) have "wf_node node1" by (rule inserts_wf(1))
  with reinserts_next show ?case by simp
qed

lemma full_below: "inners_have_child n \<Longrightarrow> below inners_have_child n"
  by (cases n) auto

lemma inners_have_child_update:
  "length qs = 4 \<Longrightarrow> i < 4 \<Longrightarrow> below inners_have_child (TransInner qs) \<Longrightarrow> inners_have_child c' \<Longrightarrow>
     inners_have_child (TransInner (qs[i := Some c']))"
proof -
  assume a: "length qs = 4" "i < 4" "below inners_have_child (TransInner qs)" "inners_have_child c'"
  then have "Some c' \<in> set (qs[i := Some c'])" by (simp add: set_update_memI)
  with a show ?thesis by (auto dest: child_updated)
qed

lemma inserts_inners_have_child:
  "inserts qt node item q depth qt' node' \<Longrightarrow> wf_node node \<Longrightarrow>
     below inners_have_child node \<Longrightarrow> inners_have_child node'"
  "reinserts its qt node q depth qt' node' \<Longrightarrow> wf_node node \<Longrightarrow>
     below inners_have_child node \<Longrightarrow>
     below inners_have_child node' \<and> (inners_have_child node \<longrightarrow> inners_have_child node')"
proof (induction rule: inserts_reinserts.inducts)
  case (into_child item q quad q' qs child depth qt qt' child')
  then have "Some child \<in> set qs" by (auto dest: child_at)
  with into_child have "inners_have_child child'" by (auto intro: full_below)
  with into_child.prems into_child.hyps(3) show ?case
    by (intro inners_have_child_update) (simp_all add: spec_child_less)
next
  case (into_new_leaf item q quad q' qs depth qt qt' child')
  then have "inners_have_child child'" by simp
  with into_new_leaf.prems into_new_leaf.hyps(3) show ?case
    by (intro inners_have_child_update) (simp_all add: spec_child_less)
next
  case (split item q k sz its qt depth qt1 qs1 qt' node')
  from split.hyps(5) have "wf_node (TransInner qs1)" by (rule inserts_wf(2)) simp
  with split show ?case by simp
next
  case (reinserts_next depth qt node it q qt1 node1 its qt' node')
  from reinserts_next.hyps(1) reinserts_next.prems(1) have "wf_node node1" by (rule inserts_wf(1))
  with reinserts_next show ?case by (simp add: full_below)
qed simp_all

lemma items_of_update:
  assumes "length qs = 4" "i < 4"
  shows "mset (items_of (TransInner (qs[i := Some c']))) + mset (case qs ! i of None \<Rightarrow> [] | Some c \<Rightarrow> items_of c)
       = mset (items_of (TransInner qs)) + mset (items_of c')"
proof -
  from four [OF assms(1)] obtain a b c d where qs: "qs = [a, b, c, d]" by blast
  from less4 [OF assms(2)] show ?thesis unfolding qs by (elim disjE) simp_all
qed

lemma take_all_snoc:
  fixes k sz :: "32 word"
  shows "unat k = length its \<Longrightarrow> unat k < unat sz \<Longrightarrow> take (unat (k + 1)) (its @ [item]) = its @ [item]"
  by (simp add: unat_succ_bounded)

lemma inserts_items:
  "inserts qt node item q depth qt' node' \<Longrightarrow> wf_node node \<Longrightarrow>
     mset (items_of node') = mset (items_of node) + {#item#}"
  "reinserts its qt node q depth qt' node' \<Longrightarrow> wf_node node \<Longrightarrow>
     mset (items_of node') = mset (items_of node) + mset its"
proof (induction rule: inserts_reinserts.inducts)
  case (into_child item q quad q' qs child depth qt qt' child')
  then have "wf_node child" by (auto dest: child_at)
  with into_child have IH: "mset (items_of child') = mset (items_of child) + {#item#}" by simp
  from into_child.prems have "length qs = 4" by simp
  from items_of_update [OF this spec_child_less, of item q child'] into_child.hyps(6) into_child.hyps(3) IH
  show ?case by (simp del: items_of.simps)
next
  case (into_new_leaf item q quad q' qs depth qt qt' child')
  then have IH: "mset (items_of child') = {#item#}" by simp
  from into_new_leaf.prems have "length qs = 4" by simp
  from items_of_update [OF this spec_child_less, of item q child'] into_new_leaf.hyps(6) into_new_leaf.hyps(3) IH
  show ?case by (simp del: items_of.simps)
next
  case store
  then show ?case by (simp add: take_all_snoc del: take_append)
next
  case grow
  then show ?case by (simp add: take_all_snoc del: take_append)
next
  case (split item q k sz its qt depth qt1 qs1 qt' node')
  from split.hyps(5) have "wf_node (TransInner qs1)" by (rule inserts_wf(2)) simp
  with split show ?case by simp
next
  case reinserts_done
  then show ?case by simp
next
  case (reinserts_next depth qt node it q qt1 node1 its qt' node')
  from reinserts_next.hyps(1) reinserts_next.prems(1) have "wf_node node1" by (rule inserts_wf(1))
  with reinserts_next show ?case by simp
qed

lemma length_gen_quadrants_mem [simp]: "length (gen_quadrants_mem q) = 4"
  by (simp add: gen_quadrants_mem_def Let_def split: prod.splits)

lemma in_region_inner:
  assumes "length qs = 4"
  shows "in_region q (TransInner qs) \<longleftrightarrow>
           (\<forall>i<4. \<forall>c. qs ! i = Some c \<longrightarrow> in_region (gen_quadrants_mem q ! i) c)"
  using assms by (auto simp: set_zip)

lemma in_region_update:
  assumes "length qs = 4" "i < 4" "in_region q (TransInner qs)" "in_region (gen_quadrants_mem q ! i) c'"
  shows "in_region q (TransInner (qs[i := Some c']))"
  using assms by (simp add: in_region_inner nth_list_update del: in_region.simps)

lemma inserts_in_region:
  "inserts qt node item q depth qt' node' \<Longrightarrow> wf_node node \<Longrightarrow> in_region q node \<Longrightarrow> in_region q node'"
  "reinserts its qt node q depth qt' node' \<Longrightarrow> wf_node node \<Longrightarrow> in_region q node \<Longrightarrow> in_region q node'"
proof (induction rule: inserts_reinserts.inducts)
  case (into_child item q quad q' qs child depth qt qt' child')
  from into_child.prems have len: "length qs = 4" by simp
  from into_child have "wf_node child" by (auto dest: child_at)
  moreover from into_child.prems(2) into_child.hyps(3,4,6) have "in_region q' child"
    by (simp add: in_region_inner [OF len] spec_child_less del: in_region.simps)
  ultimately have "in_region q' child'" using into_child.IH by simp
  with into_child.prems(2) into_child.hyps(3,4) show ?case
    by (intro in_region_update [OF len]) (simp_all add: spec_child_less)
next
  case (into_new_leaf item q quad q' qs depth qt qt' child')
  from into_new_leaf.prems have len: "length qs = 4" by simp
  from into_new_leaf.IH have "in_region q' child'" by simp
  with into_new_leaf.prems(2) into_new_leaf.hyps(3,4) show ?case
    by (intro in_region_update [OF len]) (simp_all add: spec_child_less)
next
  case store
  then show ?case by (simp add: take_all_snoc del: take_append)
next
  case grow
  then show ?case by (simp add: take_all_snoc del: take_append)
next
  case (split item q k sz its qt depth qt1 qs1 qt' node')
  from split.hyps(5) have "wf_node (TransInner qs1)" by (rule inserts_wf(2)) simp
  moreover have "in_region q (TransInner [None, None, None, None])"
    by (simp add: in_region_inner del: in_region.simps) (auto dest: less4)
  ultimately show ?case using split by simp
next
  case reinserts_done
  then show ?case by simp
next
  case (reinserts_next depth qt node it q qt1 node1 its qt' node')
  from reinserts_next.hyps(1) reinserts_next.prems(1) have "wf_node node1" by (rule inserts_wf(1))
  with reinserts_next show ?case by simp
qed

lemma bump_fields [simp]:
  "uf_nleafs (bump_maxdepth d qt) = uf_nleafs qt"
  "uf_ninners (bump_maxdepth d qt) = uf_ninners qt"
  "uf_maxfill (bump_maxdepth d qt) = uf_maxfill qt"
  "uf_region (bump_maxdepth d qt) = uf_region qt"
  "uf_size (bump_maxdepth d qt) = uf_size qt"
  "uf_root (bump_maxdepth d qt) = uf_root qt"
  "uf_maxdepth (bump_maxdepth d qt) = max d (uf_maxdepth qt)"
  by (simp_all add: bump_maxdepth_def)

lemma inserts_frame:
  "inserts qt node item q depth qt' node' \<Longrightarrow>
     uf_maxfill qt' = uf_maxfill qt \<and> uf_region qt' = uf_region qt \<and> uf_size qt' = uf_size qt \<and>
     uf_root qt' = uf_root qt"
  "reinserts its qt node q depth qt' node' \<Longrightarrow>
     uf_maxfill qt' = uf_maxfill qt \<and> uf_region qt' = uf_region qt \<and> uf_size qt' = uf_size qt \<and>
     uf_root qt' = uf_root qt"
  by (induction rule: inserts_reinserts.inducts) simp_all

lemma counts_update:
  assumes "length qs = 4" "i < 4"
  shows "n_inners (TransInner (qs[i := Some c'])) + (case qs ! i of None \<Rightarrow> 0 | Some c \<Rightarrow> n_inners c)
           = n_inners (TransInner qs) + n_inners c'"
    and "n_leaves (TransInner (qs[i := Some c'])) + (case qs ! i of None \<Rightarrow> 0 | Some c \<Rightarrow> n_leaves c)
           = n_leaves (TransInner qs) + n_leaves c'"
proof -
  from four [OF assms(1)] obtain a b c d where qs: "qs = [a, b, c, d]" by blast
  from less4 [OF assms(2)]
  show "n_inners (TransInner (qs[i := Some c'])) + (case qs ! i of None \<Rightarrow> 0 | Some c \<Rightarrow> n_inners c)
           = n_inners (TransInner qs) + n_inners c'"
    unfolding qs by (elim disjE) simp_all
  from less4 [OF assms(2)]
  show "n_leaves (TransInner (qs[i := Some c'])) + (case qs ! i of None \<Rightarrow> 0 | Some c \<Rightarrow> n_leaves c)
           = n_leaves (TransInner qs) + n_leaves c'"
    unfolding qs by (elim disjE) simp_all
qed

lemma child_leaves_le:
  assumes "length qs = 4" "i < 4" "qs ! i = Some c"
  shows "n_leaves c \<le> n_leaves (TransInner qs)"
proof -
  from four [OF assms(1)] obtain a b c d where qs: "qs = [a, b, c, d]" by blast
  from less4 [OF assms(2)] assms(3) show ?thesis unfolding qs by (elim disjE) simp_all
qed

lemma inserts_counts:
  "inserts qt node item q depth qt' node' \<Longrightarrow> wf_node node \<Longrightarrow> n_leaves node \<le> uf_nleafs qt \<Longrightarrow>
     uf_ninners qt' + n_inners node = uf_ninners qt + n_inners node' \<and>
     uf_nleafs qt' + n_leaves node = uf_nleafs qt + n_leaves node'"
  "reinserts its qt node q depth qt' node' \<Longrightarrow> wf_node node \<Longrightarrow> n_leaves node \<le> uf_nleafs qt \<Longrightarrow>
     uf_ninners qt' + n_inners node = uf_ninners qt + n_inners node' \<and>
     uf_nleafs qt' + n_leaves node = uf_nleafs qt + n_leaves node'"
proof (induction rule: inserts_reinserts.inducts)
  case (into_child item q quad q' qs child depth qt qt' child')
  from into_child.prems have len: "length qs = 4" by simp
  from into_child have "wf_node child" by (auto dest: child_at)
  moreover from child_leaves_le [OF len spec_child_less, of item q child] into_child.hyps(3,6) into_child.prems(2)
  have "n_leaves child \<le> uf_nleafs qt" by simp
  ultimately have IH: "uf_ninners qt' + n_inners child = uf_ninners qt + n_inners child'"
    "uf_nleafs qt' + n_leaves child = uf_nleafs qt + n_leaves child'"
    using into_child.IH by simp_all
  from counts_update [OF len spec_child_less, of item q child'] into_child.hyps(3,6) IH
  show ?case by (simp del: n_inners.simps n_leaves.simps)
next
  case (into_new_leaf item q quad q' qs depth qt qt' child')
  from into_new_leaf.prems have len: "length qs = 4" by simp
  from into_new_leaf.IH have IH: "uf_ninners qt' = uf_ninners qt + n_inners child'"
    "uf_nleafs qt' = uf_nleafs qt + n_leaves child'"
    by simp_all
  from counts_update [OF len spec_child_less, of item q child'] into_new_leaf.hyps(3,6) IH
  show ?case by (simp del: n_inners.simps n_leaves.simps)
next
  case store
  then show ?case by simp
next
  case grow
  then show ?case by simp
next
  case (split item q k sz its qt depth qt1 qs1 qt' node')
  from split.hyps(5) have wf1: "wf_node (TransInner qs1)" by (rule inserts_wf(2)) simp
  from split.prems have one: "1 \<le> uf_nleafs qt" by simp
  from split.IH(1) have a: "uf_ninners qt1 + 1 = uf_ninners qt + 1 + n_inners (TransInner qs1)"
    "uf_nleafs qt1 = uf_nleafs qt - 1 + n_leaves (TransInner qs1)"
    by simp_all
  then have "n_leaves (TransInner qs1) \<le> uf_nleafs qt1" by simp
  from split.IH(2) [OF wf1 this] a one show ?case
    by (simp del: n_inners.simps(1) n_leaves.simps(1)) arith
next
  case reinserts_done
  then show ?case by simp
next
  case (reinserts_next depth qt node it q qt1 node1 its qt' node')
  from reinserts_next.hyps(1) reinserts_next.prems(1) have wf1: "wf_node node1" by (rule inserts_wf(1))
  from reinserts_next.IH(1) reinserts_next.prems
  have a: "uf_ninners qt1 + n_inners node = uf_ninners qt + n_inners node1"
    "uf_nleafs qt1 + n_leaves node = uf_nleafs qt + n_leaves node1" by simp_all
  with reinserts_next.prems have "n_leaves node1 \<le> uf_nleafs qt1" by simp
  from reinserts_next.IH(2) [OF wf1 this] a show ?case by simp
qed

lemma foldr_max_plus_le:
  "foldr max (map f xs) 0 + d \<le> m \<longleftrightarrow> d \<le> m \<and> (\<forall>x\<in>set xs. f x + d \<le> (m::nat))"
  by (induction xs) auto

lemma fits_inner:
  "fits d m (TransInner qs) \<longleftrightarrow> d \<le> m \<and> (\<forall>c. Some c \<in> set qs \<longrightarrow> fits (d + 1) m c)"
proof -
  have "fits d m (TransInner qs) \<longleftrightarrow>
      foldr max (map (\<lambda>c. case c of None \<Rightarrow> 0 | Some t \<Rightarrow> height t) qs) 0 + d \<le> m"
    by (simp add: fits_def)
  also have "\<dots> \<longleftrightarrow> d \<le> m \<and> (\<forall>x\<in>set qs. (case x of None \<Rightarrow> 0 | Some t \<Rightarrow> height t) + d \<le> m)"
    by (rule foldr_max_plus_le)
  also have "\<dots> \<longleftrightarrow> d \<le> m \<and> (\<forall>c. Some c \<in> set qs \<longrightarrow> fits (d + 1) m c)"
    by (auto simp: fits_def split: option.splits)
  finally show ?thesis .
qed

lemma fits_leaf [simp]: "fits d m (TransLeaf its k sz) \<longleftrightarrow> d \<le> m"
  by (simp add: fits_def)

lemma fits_mono: "fits d m n \<Longrightarrow> m \<le> m' \<Longrightarrow> fits d m' n"
  by (simp add: fits_def)

lemma below_mono: "below P n \<Longrightarrow> (\<And>c. P c \<Longrightarrow> Q c) \<Longrightarrow> below Q n"
  by (cases n) auto

lemma fits_below: "fits d m n \<Longrightarrow> below (fits (d + 1) m) n"
  by (cases n) (auto simp: fits_inner)

lemma fits_update:
  assumes "below (fits (d + 1) m) (TransInner qs)" "fits (d + 1) m' c'" "m \<le> m'" "d \<le> m'"
  shows "fits d m' (TransInner (qs[i := Some c']))"
  using assms by (auto simp: fits_inner dest!: child_updated intro: fits_mono)

lemma inserts_fits:
  "inserts qt node item q depth qt' node' \<Longrightarrow> wf_node node \<Longrightarrow> depth \<le> uf_maxdepth qt \<Longrightarrow>
     below (fits (depth + 1) (uf_maxdepth qt)) node \<Longrightarrow>
     fits depth (uf_maxdepth qt') node' \<and> uf_maxdepth qt \<le> uf_maxdepth qt'"
  "reinserts its qt node q depth qt' node' \<Longrightarrow> wf_node node \<Longrightarrow>
     below (fits (depth + 1) (uf_maxdepth qt)) node \<Longrightarrow>
     below (fits (depth + 1) (uf_maxdepth qt')) node' \<and> uf_maxdepth qt \<le> uf_maxdepth qt'"
proof (induction rule: inserts_reinserts.inducts)
  case (into_child item q quad q' qs child depth qt qt' child')
  from into_child have c: "Some child \<in> set qs" "wf_node child" by (auto dest: child_at)
  with into_child.prems have "fits (depth + 1) (uf_maxdepth qt) child" by simp
  then have "fits (depth + 1) (max (depth + 1) (uf_maxdepth qt)) child" by (rule fits_mono) simp
  then have "below (fits (depth + 1 + 1) (max (depth + 1) (uf_maxdepth qt))) child" by (rule fits_below)
  with into_child.IH c
  have IH: "fits (depth + 1) (uf_maxdepth qt') child'" "max (depth + 1) (uf_maxdepth qt) \<le> uf_maxdepth qt'"
    by simp_all
  with into_child.prems show ?case by (auto intro!: fits_update)
next
  case (into_new_leaf item q quad q' qs depth qt qt' child')
  from into_new_leaf.IH
  have IH: "fits (depth + 1) (uf_maxdepth qt') child'" "max (depth + 1) (uf_maxdepth qt) \<le> uf_maxdepth qt'"
    by simp_all
  with into_new_leaf.prems show ?case by (auto intro!: fits_update)
next
  case store
  then show ?case by simp
next
  case grow
  then show ?case by simp
next
  case (split item q k sz its qt depth qt1 qs1 qt' node')
  from split.hyps(5) have wf1: "wf_node (TransInner qs1)" by (rule inserts_wf(2)) simp
  from split.IH(1) have a: "below (fits (depth + 1) (uf_maxdepth qt1)) (TransInner qs1)"
    "uf_maxdepth qt \<le> uf_maxdepth qt1" by simp_all
  with split.prems have "depth \<le> uf_maxdepth qt1" by simp
  from split.IH(2) [OF wf1 this a(1)] a(2) show ?case by simp
next
  case reinserts_done
  then show ?case by simp
next
  case (reinserts_next depth qt node it q qt1 node1 its qt' node')
  from reinserts_next.hyps(1) reinserts_next.prems(1) have wf1: "wf_node node1" by (rule inserts_wf(1))
  from reinserts_next.prems(2) have "below (fits (depth + 1) (max depth (uf_maxdepth qt))) node"
    by (rule below_mono) (auto intro: fits_mono)
  with reinserts_next.IH(1) reinserts_next.prems(1)
  have a: "fits depth (uf_maxdepth qt1) node1" "max depth (uf_maxdepth qt) \<le> uf_maxdepth qt1"
    by simp_all
  from a(1) have "below (fits (depth + 1) (uf_maxdepth qt1)) node1" by (rule fits_below)
  from reinserts_next.IH(2) [OF wf1 this] a(2) show ?case by simp
qed

lemma empty_inner_no_child: "i < 4 \<Longrightarrow> [None, None, None, None] ! i \<noteq> Some c"
  by (auto dest!: less4)

lemma builder_ok_create: "builder_ok (qt_create_quadtree region maxfill)"
  by (simp add: builder_ok_def qt_create_quadtree_def nullify_quadrants_def in_region_inner
      empty_inner_no_child del: in_region.simps)

lemma qt_insert_ok:
  assumes ok: "builder_ok B" and run: "qt_insert fuel B item = Inr B'"
  shows "builder_ok B'"
    and "inners_have_child (uf_root B')"
    and "fits 1 (uf_maxdepth B') (uf_root B')"
    and "mset (items_of (uf_root B')) = mset (items_of (uf_root B)) + {#item#}"
    and "uf_region B' = uf_region B" and "uf_maxfill B' = uf_maxfill B"
    and "uf_size B' = uf_size B + 1"
    and "in_quadrant item (uf_region B)"
proof -
  let ?B1 = "B\<lparr>uf_size := uf_size B + 1\<rparr>"
  from run obtain qt' root' where
    rec: "qt_insert_rec fuel ?B1 (uf_root B) item (uf_region B) 0 = Inr (qt', root')"
    and B': "B' = qt'\<lparr>uf_root := root'\<rparr>"
    by (auto simp: qt_insert_def Let_def split: sum.splits)
  from qt_insert_rec_inserts [OF rec]
  have ins: "inserts (bump_maxdepth 1 ?B1) (uf_root B) item (uf_region B) 1 qt' root'" by simp
  from ok have wf: "wf_node (uf_root B)" and inner: "is_inner (uf_root B)"
    by (simp_all add: builder_ok_def)
  note frame = inserts_frame(1) [OF ins]
  have 1: "wf_node root'" using ins wf by (rule inserts_wf(1))
  have 2: "is_inner root'" using ins inner by (rule inserts_inner_stays(1))
  have 3: "leaves_nonempty root'"
    using inserts_leaves_nonempty(1) [OF ins wf] ok by (simp add: builder_ok_def)
  have 4: "inners_have_child root'"
    using inserts_inners_have_child(1) [OF ins wf] ok by (simp add: builder_ok_def)
  have 5: "in_region (uf_region B) root'"
    using inserts_in_region(1) [OF ins wf] ok by (simp add: builder_ok_def)
  have 6: "uf_ninners qt' = n_inners root' \<and> uf_nleafs qt' = n_leaves root'"
    using inserts_counts(1) [OF ins wf] ok by (simp add: builder_ok_def)
  from ok have "below (fits 2 (uf_maxdepth B)) (uf_root B)" by (simp add: builder_ok_def)
  then have "below (fits 2 (max 1 (uf_maxdepth B))) (uf_root B)"
    by (rule below_mono) (rule fits_mono, assumption, rule max.cobounded2)
  then have 7: "fits 1 (uf_maxdepth qt') root'"
    using inserts_fits(1) [OF ins wf] by (simp add: numeral_2_eq_2)
  have 8: "mset (items_of root') = mset (items_of (uf_root B)) + {#item#}"
    using ins wf by (rule inserts_items(1))
  from 1 2 3 4 5 6 7 frame B' show "builder_ok B'"
    by (simp add: builder_ok_def full_below fits_below [of 1, simplified] numeral_2_eq_2)
  from 4 B' show "inners_have_child (uf_root B')" by simp
  from 7 B' show "fits 1 (uf_maxdepth B') (uf_root B')" by simp
  from 8 B' show "mset (items_of (uf_root B')) = mset (items_of (uf_root B)) + {#item#}" by simp
  from frame B' show "uf_region B' = uf_region B" "uf_maxfill B' = uf_maxfill B"
    "uf_size B' = uf_size B + 1" by simp_all
  from ins show "in_quadrant item (uf_region B)" by cases simp_all
qed

lemma qt_insert_sane:
  assumes "qt_insert fuel B item = Inr B'"
  shows "ASSERT_REGION_SANE (uf_region B)"
proof -
  from assms obtain qt' root' where
    rec: "qt_insert_rec fuel (B\<lparr>uf_size := uf_size B + 1\<rparr>) (uf_root B) item (uf_region B) 0 = Inr (qt', root')"
    by (auto simp: qt_insert_def Let_def split: sum.splits)
  from qt_insert_rec_inserts [OF rec] show ?thesis by cases simp_all
qed

lemma qt_insert_all_ok:
  assumes "builder_ok B" and "qt_insert_all fuel B items = Inr B'"
  shows "builder_ok B' \<and>
         mset (items_of (uf_root B')) = mset (items_of (uf_root B)) + mset items \<and>
         uf_region B' = uf_region B \<and> uf_maxfill B' = uf_maxfill B \<and>
         uf_size B' = uf_size B + length items \<and>
         (\<forall>i\<in>set items. in_quadrant i (uf_region B)) \<and>
         (items \<noteq> [] \<longrightarrow> inners_have_child (uf_root B') \<and> fits 1 (uf_maxdepth B') (uf_root B') \<and>
            ASSERT_REGION_SANE (uf_region B))"
  using assms
proof (induction items arbitrary: B)
  case Nil
  then show ?case by simp
next
  case (Cons x xs)
  from Cons.prems(2) obtain B1 where
    one: "qt_insert fuel B x = Inr B1" and rest: "qt_insert_all fuel B1 xs = Inr B'"
    by (auto split: sum.splits)
  note step = qt_insert_ok [OF Cons.prems(1) one] qt_insert_sane [OF one]
  note IH = Cons.IH [OF step(1) rest]
  show ?case
  proof (cases "xs = []")
    case True
    with rest have "B' = B1" by simp
    with step True show ?thesis by simp
  next
    case False
    with IH step show ?thesis by simp
  qed
qed

lemma qt_build_ok:
  assumes "qt_build fuel region maxfill items = Inr B"
  shows "builder_ok B" and "mset (items_of (uf_root B)) = mset items"
    and "uf_region B = region" and "uf_maxfill B = maxfill" and "uf_size B = length items"
    and "\<forall>i\<in>set items. in_quadrant i region"
    and "items \<noteq> [] \<Longrightarrow> inners_have_child (uf_root B)"
    and "items \<noteq> [] \<Longrightarrow> fits 1 (uf_maxdepth B) (uf_root B)"
    and "items \<noteq> [] \<Longrightarrow> ASSERT_REGION_SANE region"
  using qt_insert_all_ok [OF builder_ok_create, of fuel region maxfill items B] assms
  by (simp_all add: qt_build_def qt_create_quadtree_def nullify_quadrants_def)

section \<open>The layout written by the finaliser\<close>

lemma n_inners_inner: "n_inners (TransInner qs) = 1 + inners_in qs"
  by (simp add: inners_in_def)

lemma leaf_bytes_inner: "leaf_bytes (TransInner qs) = bytes_in qs"
  by (simp add: bytes_in_def)

lemma in_Nil [simp]: "inners_in [] = 0" "bytes_in [] = 0"
  by (simp_all add: inners_in_def bytes_in_def)

lemma in_Cons [simp]:
  "inners_in (None # cs) = inners_in cs" "bytes_in (None # cs) = bytes_in cs"
  "inners_in (Some c # cs) = n_inners c + inners_in cs"
  "bytes_in (Some c # cs) = leaf_bytes c + bytes_in cs"
  by (simp_all add: inners_in_def bytes_in_def)

lemma ball_zip_nth:
  "length xs = length ys \<Longrightarrow>
     (\<forall>(x, y) \<in> set (zip xs ys). P x y) \<longleftrightarrow> (\<forall>i<length ys. P (xs ! i) (ys ! i))"
  by (fastforce simp: set_zip)

lemma repr_inner_nth:
  "repr T S a (TransInner qs) \<longleftrightarrow>
     a \<in> S \<and> a < MEM_LEAFS T \<and>
     (\<exists>offs. qt_mem T a = Some (Node_Inner offs) \<and> length offs = length qs \<and>
        (\<forall>i<length qs. case qs ! i of None \<Rightarrow> offs ! i = ROOT
                                  | Some c \<Rightarrow> offs ! i \<noteq> ROOT \<and> repr T S (offs ! i) c))"
  by (simp add: ball_zip_nth cong: conj_cong)

lemma repr_inner_intro:
  assumes "a \<in> S" "a < MEM_LEAFS T" "qt_mem T a = Some (Node_Inner offs)" "length offs = length qs"
    and "\<And>i. i < length qs \<Longrightarrow> qs ! i = None \<Longrightarrow> offs ! i = ROOT"
    and "\<And>i c. i < length qs \<Longrightarrow> qs ! i = Some c \<Longrightarrow> offs ! i \<noteq> ROOT \<and> repr T S (offs ! i) c"
  shows "repr T S a (TransInner qs)"
  unfolding repr_inner_nth using assms by (auto split: option.splits)

lemma repr_inner_elim:
  assumes "repr T S a (TransInner qs)"
  obtains offs where "a \<in> S" "a < MEM_LEAFS T" "qt_mem T a = Some (Node_Inner offs)"
    "length offs = length qs"
    "\<And>i. i < length qs \<Longrightarrow> qs ! i = None \<Longrightarrow> offs ! i = ROOT"
    "\<And>i c. i < length qs \<Longrightarrow> qs ! i = Some c \<Longrightarrow> offs ! i \<noteq> ROOT \<and> repr T S (offs ! i) c"
proof -
  from assms obtain offs where *: "a \<in> S" "a < MEM_LEAFS T" "qt_mem T a = Some (Node_Inner offs)"
    "length offs = length qs"
    "\<forall>i<length qs. case qs ! i of None \<Rightarrow> offs ! i = ROOT
                                  | Some c \<Rightarrow> offs ! i \<noteq> ROOT \<and> repr T S (offs ! i) c"
    unfolding repr_inner_nth by blast
  show thesis
  proof (rule that [OF *(1-4)])
    fix i assume "i < length qs" "qs ! i = None"
    with *(5) show "offs ! i = ROOT" by fastforce
  next
    fix i c assume "i < length qs" "qs ! i = Some c"
    with *(5) show "offs ! i \<noteq> ROOT \<and> repr T S (offs ! i) c" by fastforce
  qed
qed

lemma repr_mono: "repr T S a t \<Longrightarrow> S \<subseteq> S' \<Longrightarrow> repr T S' a t"
proof (induction t arbitrary: a)
  case (TransInner qs)
  from TransInner.prems(1) show ?case
  proof (rule repr_inner_elim)
    fix offs
    assume *: "a \<in> S" "a < MEM_LEAFS T" "qt_mem T a = Some (Node_Inner offs)" "length offs = length qs"
      and none: "\<And>i. i < length qs \<Longrightarrow> qs ! i = None \<Longrightarrow> offs ! i = ROOT"
      and some: "\<And>i c. i < length qs \<Longrightarrow> qs ! i = Some c \<Longrightarrow> offs ! i \<noteq> ROOT \<and> repr T S (offs ! i) c"
    show ?thesis
    proof (rule repr_inner_intro [OF _ *(2-4)])
      from *(1) TransInner.prems(2) show "a \<in> S'" by blast
    next
      fix i assume "i < length qs" "qs ! i = None" then show "offs ! i = ROOT" by (rule none)
    next
      fix i c assume i: "i < length qs" "qs ! i = Some c"
      then have "qs ! i \<in> set qs" "c \<in> set_option (qs ! i)"
        using nth_mem [of i qs] by simp_all
      from TransInner.IH [OF this _ TransInner.prems(2)] some [OF i]
      show "offs ! i \<noteq> ROOT \<and> repr T S' (offs ! i) c" by blast
    qed
  qed
next
  case (TransLeaf its k sz)
  then show ?case by auto
qed

lemma repr_frame:
  "repr T S a t \<Longrightarrow> (\<forall>b\<in>S. qt_mem T' b = qt_mem T b) \<Longrightarrow> MEM_LEAFS T' = MEM_LEAFS T \<Longrightarrow> repr T' S a t"
proof (induction t arbitrary: a)
  case (TransInner qs)
  from TransInner.prems(1) show ?case
  proof (rule repr_inner_elim)
    fix offs
    assume *: "a \<in> S" "a < MEM_LEAFS T" "qt_mem T a = Some (Node_Inner offs)" "length offs = length qs"
      and none: "\<And>i. i < length qs \<Longrightarrow> qs ! i = None \<Longrightarrow> offs ! i = ROOT"
      and some: "\<And>i c. i < length qs \<Longrightarrow> qs ! i = Some c \<Longrightarrow> offs ! i \<noteq> ROOT \<and> repr T S (offs ! i) c"
    show ?thesis
    proof (rule repr_inner_intro [OF *(1) _ _ *(4)])
      from *(2) TransInner.prems(3) show "a < MEM_LEAFS T'" by simp
    next
      from *(1,3) TransInner.prems(2) show "qt_mem T' a = Some (Node_Inner offs)" by simp
    next
      fix i assume "i < length qs" "qs ! i = None" then show "offs ! i = ROOT" by (rule none)
    next
      fix i c assume i: "i < length qs" "qs ! i = Some c"
      then have "qs ! i \<in> set qs" "c \<in> set_option (qs ! i)"
        using nth_mem [of i qs] by simp_all
      from TransInner.IH [OF this _ TransInner.prems(2,3)] some [OF i]
      show "offs ! i \<noteq> ROOT \<and> repr T' S (offs ! i) c" by blast
    qed
  qed
next
  case (TransLeaf its k sz)
  then show ?case by auto
qed

lemma mem_set_inner_quadrant:
  "qt_mem (set_inner_quadrant a i v T) b =
     (if b = a then Some (Node_Inner ((offsets_at T a)[i := v])) else qt_mem T b)"
  by (simp add: set_inner_quadrant_def offsets_at_def)

lemma offsets_at_set_inner_quadrant:
  "offsets_at (set_inner_quadrant a i v T) b =
     (if b = a then (offsets_at T a)[i := v] else offsets_at T b)"
  by (simp add: offsets_at_def mem_set_inner_quadrant)

lemma MEM_LEAFS_set_inner_quadrant [simp]:
  "MEM_LEAFS (set_inner_quadrant a i v T) = MEM_LEAFS T"
  by (simp add: MEM_LEAFS_def set_inner_quadrant_def)

lemma header_eq_MEM_LEAFS: "header_eq T' T \<Longrightarrow> MEM_LEAFS T' = MEM_LEAFS T"
  by (simp add: header_eq_def MEM_LEAFS_def)

lemma header_eq_trans: "header_eq a b \<Longrightarrow> header_eq b c \<Longrightarrow> header_eq a c"
  by (simp add: header_eq_def)

lemma area_sub1: "area N L n1 b1 \<subseteq> area N L (n1 + n2) (b1 + b2)"
  by (auto simp: area_def sizeof_Inner_def)

lemma area_sub2: "area (N + n1) (L + b1) n2 b2 \<subseteq> area N L (n1 + n2) (b1 + b2)"
  by (auto simp: area_def sizeof_Inner_def)

lemma area_disjoint:
  "sizeof_Inner * (N + (n1 + n2)) \<le> M \<Longrightarrow> M \<le> L \<Longrightarrow> x \<in> area N L n1 b1 \<Longrightarrow>
     x \<notin> area (N + n1) (L + b1) n2 b2"
  by (auto simp: area_def sizeof_Inner_def)

lemma parent_outside:
  "inner < sizeof_Inner * N \<Longrightarrow> sizeof_Inner * (N + n) \<le> M \<Longrightarrow> M \<le> L \<Longrightarrow> inner \<notin> area N L n b"
  by (auto simp: area_def sizeof_Inner_def)

lemma finalise_leaf_layout:
  assumes "st_cur_node st = st_next_leaf st"
    and "layout_free st 0 (sizeof_Leaf + unat k * sizeof_Item)"
  shows "\<exists>st'. qt_finalise_node (TransLeaf its k sz) st = Inr st' \<and>
           node_written (TransLeaf its k sz) st st'"
  using assms
  by (auto simp: qt_finalise_leaf_def layout_free_def advanced_def IS_LEAF_def Let_def header_eq_def
        MEM_LEAFS_def area_def sizeof_Leaf_def node_written_def)

lemma slots_written_entry:
  assumes "slots_written inner i cs st st'" "j < length cs"
  shows "cs ! j = None \<Longrightarrow> offsets_at (st_quadtree st') inner ! (i + j) = ROOT"
    and "cs ! j = Some c \<Longrightarrow> offsets_at (st_quadtree st') inner ! (i + j) \<noteq> ROOT \<and>
            repr (st_quadtree st') (area (st_ninners st) (st_next_leaf st) (inners_in cs) (bytes_in cs))
              (offsets_at (st_quadtree st') inner ! (i + j)) c"
  using assms unfolding slots_written_def by fastforce+

lemma slots_written_intro:
  assumes "advanced st st' (inners_in cs) (bytes_in cs)"
    and "\<And>b. b \<noteq> inner \<Longrightarrow> b \<notin> area (st_ninners st) (st_next_leaf st) (inners_in cs) (bytes_in cs) \<Longrightarrow>
          qt_mem (st_quadtree st') b = qt_mem (st_quadtree st) b"
    and "cs \<noteq> [] \<Longrightarrow> qt_mem (st_quadtree st') inner = Some (Node_Inner (offsets_at (st_quadtree st') inner))"
    and "length (offsets_at (st_quadtree st') inner) = i + length cs"
    and "\<And>j. j < i \<Longrightarrow> offsets_at (st_quadtree st') inner ! j = offsets_at (st_quadtree st) inner ! j"
    and "\<And>j. j < length cs \<Longrightarrow> cs ! j = None \<Longrightarrow> offsets_at (st_quadtree st') inner ! (i + j) = ROOT"
    and "\<And>j c. j < length cs \<Longrightarrow> cs ! j = Some c \<Longrightarrow>
            offsets_at (st_quadtree st') inner ! (i + j) \<noteq> ROOT \<and>
            repr (st_quadtree st') (area (st_ninners st) (st_next_leaf st) (inners_in cs) (bytes_in cs))
              (offsets_at (st_quadtree st') inner ! (i + j)) c"
  shows "slots_written inner i cs st st'"
  unfolding slots_written_def using assms by (auto split: option.splits)

lemma slots_written_elims:
  assumes "slots_written inner i cs st st'"
  shows "advanced st st' (inners_in cs) (bytes_in cs)"
    and "\<And>b. b \<noteq> inner \<Longrightarrow> b \<notin> area (st_ninners st) (st_next_leaf st) (inners_in cs) (bytes_in cs) \<Longrightarrow>
          qt_mem (st_quadtree st') b = qt_mem (st_quadtree st) b"
    and "cs \<noteq> [] \<Longrightarrow> qt_mem (st_quadtree st') inner = Some (Node_Inner (offsets_at (st_quadtree st') inner))"
    and "length (offsets_at (st_quadtree st') inner) = i + length cs"
    and "\<And>j. j < i \<Longrightarrow> offsets_at (st_quadtree st') inner ! j = offsets_at (st_quadtree st) inner ! j"
  using assms unfolding slots_written_def by blast+

lemma node_written_elims:
  assumes "node_written t st st'"
  shows "advanced st st' (n_inners t) (leaf_bytes t)"
    and "\<And>b. b \<notin> area (st_ninners st) (st_next_leaf st) (n_inners t) (leaf_bytes t) \<Longrightarrow>
          qt_mem (st_quadtree st') b = qt_mem (st_quadtree st) b"
    and "repr (st_quadtree st') (area (st_ninners st) (st_next_leaf st) (n_inners t) (leaf_bytes t))
       (st_cur_node st) t"
  using assms unfolding node_written_def by blast+

lemma finalise_layout:
  "\<lbrakk>wf_node t;
    if is_inner t then st_cur_node st = sizeof_Inner * st_ninners st
    else st_cur_node st = st_next_leaf st;
    layout_free st (n_inners t) (leaf_bytes t)\<rbrakk> \<Longrightarrow>
   \<exists>st'. qt_finalise_node t st = Inr st' \<and> node_written t st st'"
  "\<lbrakk>\<forall>c. Some c \<in> set cs \<longrightarrow> wf_node c;
    inner < sizeof_Inner * st_ninners st;
    layout_free st (inners_in cs) (bytes_in cs);
    length (offsets_at (st_quadtree st) inner) = i + length cs\<rbrakk> \<Longrightarrow>
   \<exists>st'. qt_finalise_for inner i cs st = Inr st' \<and> slots_written inner i cs st st'"
proof (induction t st and inner i cs st rule: qt_finalise_node_qt_finalise_for.induct)
  case (1 qs st)
  let ?a = "st_cur_node st" and ?N = "st_ninners st" and ?L = "st_next_leaf st" and ?T = "st_quadtree st"
  let ?st1 = "st\<lparr>st_ninners := st_ninners st + 1\<rparr>"
  from "1.prems" have len: "length qs = 4" and wfc: "\<forall>c. Some c \<in> set qs \<longrightarrow> wf_node c"
    and a: "?a = sizeof_Inner * ?N" and free: "layout_free st (1 + inners_in qs) (bytes_in qs)"
    by (simp_all add: n_inners_inner leaf_bytes_inner del: n_inners.simps(1) leaf_bytes.simps(1))
  from free a have a_in: "?a \<in> area ?N ?L (1 + inners_in qs) (bytes_in qs)"
    by (simp add: area_def sizeof_Inner_def)
  with free have unmapped: "qt_mem ?T ?a = None" by (simp add: layout_free_def)
  have sub: "area (?N + 1) ?L (inners_in qs) (bytes_in qs) \<subseteq> area ?N ?L (1 + inners_in qs) (bytes_in qs)"
    using area_sub2 [of ?N 1 ?L 0 "inners_in qs" "bytes_in qs"] by simp
  have pre2: "?a < sizeof_Inner * st_ninners ?st1" using a by (simp add: sizeof_Inner_def)
  have pre3: "layout_free ?st1 (inners_in qs) (bytes_in qs)"
    using free sub by (auto simp: layout_free_def add.assoc)
  have pre4: "length (offsets_at (st_quadtree ?st1) ?a) = 0 + length qs"
    using unmapped len by (simp add: offsets_at_def)
  from "1.IH" [OF refl refl wfc pre2 pre3 pre4] obtain st' where
    run: "qt_finalise_for ?a 0 qs ?st1 = Inr st'" and post: "slots_written ?a 0 qs ?st1 st'"
    by blast
  note sl = slots_written_elims [OF post]
  let ?T' = "st_quadtree st'"
  from sl(1) have mlf: "MEM_LEAFS ?T' = MEM_LEAFS ?T" by (simp add: advanced_def header_eq_MEM_LEAFS)
  have "repr ?T' (area ?N ?L (1 + inners_in qs) (bytes_in qs)) ?a (TransInner qs)"
  proof (rule repr_inner_intro [OF a_in])
    from free a mlf show "?a < MEM_LEAFS ?T'" by (simp add: layout_free_def sizeof_Inner_def)
    from len have "qs \<noteq> []" by auto
    then show "qt_mem ?T' ?a = Some (Node_Inner (offsets_at ?T' ?a))" by (rule sl(3))
    from sl(4) show "length (offsets_at ?T' ?a) = length qs" by simp
  next
    fix j assume "j < length qs" "qs ! j = None"
    from slots_written_entry(1) [OF post this] show "offsets_at ?T' ?a ! j = ROOT" by simp
  next
    fix j c assume "j < length qs" "qs ! j = Some c"
    from slots_written_entry(2) [OF post this] sub
    show "offsets_at ?T' ?a ! j \<noteq> ROOT \<and>
        repr ?T' (area ?N ?L (1 + inners_in qs) (bytes_in qs)) (offsets_at ?T' ?a ! j) c"
      by (auto intro: repr_mono)
  qed
  moreover have "advanced st st' (1 + inners_in qs) (bytes_in qs)"
    using sl(1) by (simp add: advanced_def)
  moreover have "\<forall>b. b \<notin> area ?N ?L (1 + inners_in qs) (bytes_in qs) \<longrightarrow> qt_mem ?T' b = qt_mem ?T b"
  proof (intro allI impI)
    fix b assume b: "b \<notin> area ?N ?L (1 + inners_in qs) (bytes_in qs)"
    with a_in have "b \<noteq> ?a" by blast
    moreover from b sub have "b \<notin> area (?N + 1) ?L (inners_in qs) (bytes_in qs)" by blast
    ultimately show "qt_mem ?T' b = qt_mem ?T b" using sl(2) [of b] by simp
  qed
  moreover have "qt_finalise_node (TransInner qs) st = Inr st'"
    using run by (simp add: Let_def)
  ultimately show ?case by (auto simp only: n_inners_inner leaf_bytes_inner node_written_def)
next
  case (2 its k sz st)
  then show ?case using finalise_leaf_layout [of st k its sz] by simp
next
  case (3 inner i st)
  then show ?case by (simp add: advanced_def slots_written_def)
next
  case (4 inner i cs st)
  let ?N = "st_ninners st" and ?L = "st_next_leaf st" and ?T = "st_quadtree st"
  let ?T1 = "set_inner_quadrant inner i ROOT ?T"
  let ?st1 = "st\<lparr>st_quadtree := ?T1\<rparr>"
  from "4.prems" have wfc: "\<forall>c. Some c \<in> set cs \<longrightarrow> wf_node c"
    and inn: "inner < sizeof_Inner * ?N" and free: "layout_free st (inners_in cs) (bytes_in cs)"
    and len: "length (offsets_at ?T inner) = i + length (None # cs)"
    by simp_all
  from free have bounds: "sizeof_Inner * (?N + inners_in cs) \<le> MEM_LEAFS ?T" "MEM_LEAFS ?T \<le> ?L"
    by (simp_all add: layout_free_def)
  from inn bounds have out: "inner \<notin> area ?N ?L (inners_in cs) (bytes_in cs)"
    by (rule parent_outside)
  have pre2: "inner < sizeof_Inner * st_ninners ?st1" using inn by simp
  have pre3: "layout_free ?st1 (inners_in cs) (bytes_in cs)"
    using free out by (auto simp: layout_free_def mem_set_inner_quadrant)
  have pre4: "length (offsets_at (st_quadtree ?st1) inner) = (i + 1) + length cs"
    using len by (simp add: offsets_at_set_inner_quadrant)
  from "4.IH" [OF wfc pre2 pre3 pre4] obtain st' where
    run: "qt_finalise_for inner (i + 1) cs ?st1 = Inr st'"
    and post: "slots_written inner (i + 1) cs ?st1 st'"
    by blast
  note sl = slots_written_elims [OF post]
  let ?T' = "st_quadtree st'"
  have at_i: "offsets_at ?T' inner ! i = ROOT"
    using sl(5) [of i] len by (simp add: offsets_at_set_inner_quadrant)
  have "slots_written inner i (None # cs) st st'"
  proof (rule slots_written_intro)
    show "advanced st st' (inners_in (None # cs)) (bytes_in (None # cs))"
      using sl(1) by (simp add: advanced_def)
  next
    fix b assume "b \<noteq> inner" "b \<notin> area ?N ?L (inners_in (None # cs)) (bytes_in (None # cs))"
    with sl(2) [of b] show "qt_mem ?T' b = qt_mem ?T b" by (simp add: mem_set_inner_quadrant)
  next
    show "qt_mem ?T' inner = Some (Node_Inner (offsets_at ?T' inner))"
    proof (cases "cs = []")
      case True
      with run have "st' = ?st1" by simp
      then show ?thesis by (simp add: mem_set_inner_quadrant offsets_at_set_inner_quadrant)
    next
      case False
      with sl(3) show ?thesis by simp
    qed
  next
    show "length (offsets_at ?T' inner) = i + length (None # cs)" using sl(4) by simp
  next
    fix j assume "j < i"
    with sl(5) [of j] show "offsets_at ?T' inner ! j = offsets_at ?T inner ! j"
      by (simp add: offsets_at_set_inner_quadrant)
  next
    fix j assume j: "j < length (None # cs)" "(None # cs) ! j = None"
    show "offsets_at ?T' inner ! (i + j) = ROOT"
    proof (cases j)
      case 0
      with at_i show ?thesis by simp
    next
      case (Suc j')
      with j have "j' < length cs" "cs ! j' = None" by simp_all
      from slots_written_entry(1) [OF post this] Suc show ?thesis by simp
    qed
  next
    fix j c assume j: "j < length (None # cs)" "(None # cs) ! j = Some c"
    then obtain j' where Suc: "j = Suc j'" by (cases j) auto
    with j have "j' < length cs" "cs ! j' = Some c" by simp_all
    from slots_written_entry(2) [OF post this] Suc
    show "offsets_at ?T' inner ! (i + j) \<noteq> ROOT \<and>
        repr ?T' (area ?N ?L (inners_in (None # cs)) (bytes_in (None # cs))) (offsets_at ?T' inner ! (i + j)) c"
      by simp
  qed
  moreover have "qt_finalise_for inner i (None # cs) st = Inr st'" using run by simp
  ultimately show ?case by blast
next
  case (5 inner i c cs st)
  let ?N = "st_ninners st" and ?L = "st_next_leaf st" and ?T = "st_quadtree st"
  let ?ca = "if is_inner c then MEM_INNERS + sizeof_Inner * st_ninners st else st_next_leaf st"
  let ?st1 = "st\<lparr>st_cur_node := ?ca\<rparr>"
  let ?T2 = "set_inner_quadrant inner i (?ca - MEM_INNERS) ?T"
  let ?st2 = "?st1\<lparr>st_quadtree :=
      set_inner_quadrant inner i (st_cur_node ?st1 - MEM_INNERS) (st_quadtree ?st1)\<rparr>"
  let ?nc = "n_inners c" and ?bc = "leaf_bytes c"
  from "5.prems" have wfc: "wf_node c" and wfcs: "\<forall>c. Some c \<in> set cs \<longrightarrow> wf_node c"
    and inn: "inner < sizeof_Inner * ?N"
    and free: "layout_free st (?nc + inners_in cs) (?bc + bytes_in cs)"
    and len: "length (offsets_at ?T inner) = i + length (Some c # cs)"
    by simp_all
  from free have bounds: "sizeof_Inner * (?N + (?nc + inners_in cs)) \<le> MEM_LEAFS ?T" "MEM_LEAFS ?T \<le> ?L"
    by (simp_all add: layout_free_def)
  from inn bounds have out: "inner \<notin> area ?N ?L (?nc + inners_in cs) (?bc + bytes_in cs)"
    by (rule parent_outside)
  have ca_nz: "?ca - MEM_INNERS \<noteq> ROOT"
    using inn bounds by (auto simp: MEM_INNERS_def ROOT_def sizeof_Inner_def)
  have ca_eq: "?ca - MEM_INNERS = ?ca" by (simp add: MEM_INNERS_def)
  have st2_fields: "st_ninners ?st2 = ?N" "st_next_leaf ?st2 = ?L" "st_cur_node ?st2 = ?ca"
    "st_quadtree ?st2 = ?T2" by simp_all
  have p2: "if is_inner c then st_cur_node ?st2 = sizeof_Inner * st_ninners ?st2
            else st_cur_node ?st2 = st_next_leaf ?st2"
    by (simp add: MEM_INNERS_def)
  have p3: "layout_free ?st2 ?nc ?bc"
    unfolding layout_free_def
  proof (intro conjI ballI)
    from bounds show "sizeof_Inner * (st_ninners ?st2 + ?nc) \<le> MEM_LEAFS (st_quadtree ?st2)"
      by (simp add: sizeof_Inner_def)
    from bounds show "MEM_LEAFS (st_quadtree ?st2) \<le> st_next_leaf ?st2" by simp
  next
    fix b assume "b \<in> area (st_ninners ?st2) (st_next_leaf ?st2) ?nc ?bc"
    with area_sub1 [of ?N ?L ?nc ?bc "inners_in cs" "bytes_in cs"]
    have ball: "b \<in> area ?N ?L (?nc + inners_in cs) (?bc + bytes_in cs)" by auto
    with out have "b \<noteq> inner" by blast
    with free ball show "qt_mem (st_quadtree ?st2) b = None"
      by (simp add: layout_free_def mem_set_inner_quadrant)
  qed
  from "5.IH"(1) [OF refl refl wfc p2 p3] obtain st3 where
    run3: "qt_finalise_node c ?st2 = Inr st3" and post3: "node_written c ?st2 st3"
    by blast
  note nw = node_written_elims [OF post3, unfolded st2_fields]
  let ?T3 = "st_quadtree st3"
  from nw(1) have N3: "st_ninners st3 = ?N + ?nc" and L3: "st_next_leaf st3 = ?L + ?bc"
    and mlf3: "MEM_LEAFS ?T3 = MEM_LEAFS ?T"
    by (simp_all add: advanced_def header_eq_MEM_LEAFS)
  from inn bounds have out_c: "inner \<notin> area ?N ?L ?nc ?bc"
    by (auto simp: area_def sizeof_Inner_def)
  from nw(2) [OF out_c] have mem3_inner: "qt_mem ?T3 inner = Some (Node_Inner ((offsets_at ?T inner)[i := ?ca]))"
    by (simp add: mem_set_inner_quadrant ca_eq)
  then have off3: "offsets_at ?T3 inner = (offsets_at ?T inner)[i := ?ca]"
    by (simp add: offsets_at_def)
  have q2: "inner < sizeof_Inner * st_ninners st3" using inn N3 by (simp add: sizeof_Inner_def)
  have q3: "layout_free st3 (inners_in cs) (bytes_in cs)"
    unfolding layout_free_def
  proof (intro conjI ballI)
    from bounds N3 mlf3 show "sizeof_Inner * (st_ninners st3 + inners_in cs) \<le> MEM_LEAFS ?T3"
      by (simp add: add.assoc)
    from bounds L3 mlf3 show "MEM_LEAFS ?T3 \<le> st_next_leaf st3" by simp
  next
    fix b assume b: "b \<in> area (st_ninners st3) (st_next_leaf st3) (inners_in cs) (bytes_in cs)"
    then have b2: "b \<in> area (?N + ?nc) (?L + ?bc) (inners_in cs) (bytes_in cs)" by (simp add: N3 L3)
    with area_disjoint [OF bounds, of b ?bc "bytes_in cs"] have "b \<notin> area ?N ?L ?nc ?bc" by blast
    from nw(2) [OF this] have "qt_mem ?T3 b = qt_mem ?T2 b" .
    moreover from b2 area_sub2 [of ?N ?nc ?L ?bc "inners_in cs" "bytes_in cs"]
    have ball: "b \<in> area ?N ?L (?nc + inners_in cs) (?bc + bytes_in cs)" by blast
    with out have "b \<noteq> inner" by blast
    ultimately show "qt_mem ?T3 b = None"
      using free ball by (simp add: layout_free_def mem_set_inner_quadrant)
  qed
  have q4: "length (offsets_at ?T3 inner) = (i + 1) + length cs" using len off3 by simp
  from "5.IH"(2) [OF refl refl run3 wfcs q2 q3 q4] obtain st' where
    run: "qt_finalise_for inner (i + 1) cs st3 = Inr st'"
    and post: "slots_written inner (i + 1) cs st3 st'"
    by blast
  note sl = slots_written_elims [OF post, unfolded N3 L3]
  note en = slots_written_entry [OF post, unfolded N3 L3]
  let ?T' = "st_quadtree st'"
  let ?A = "area ?N ?L (inners_in (Some c # cs)) (bytes_in (Some c # cs))"
  from sl(1) have mlf': "MEM_LEAFS ?T' = MEM_LEAFS ?T3" by (simp add: advanced_def header_eq_MEM_LEAFS)
  have at_i: "offsets_at ?T' inner ! i = ?ca"
    using sl(5) [of i] off3 len by simp
  have repr_c: "repr ?T' ?A ?ca c"
  proof -
    have "repr ?T' (area ?N ?L ?nc ?bc) ?ca c"
    proof (rule repr_frame [OF nw(3)])
      show "\<forall>b\<in>area ?N ?L ?nc ?bc. qt_mem ?T' b = qt_mem ?T3 b"
      proof
        fix b assume b: "b \<in> area ?N ?L ?nc ?bc"
        with out_c have "b \<noteq> inner" by blast
        moreover from area_disjoint [OF bounds b]
        have "b \<notin> area (?N + ?nc) (?L + ?bc) (inners_in cs) (bytes_in cs)" .
        ultimately show "qt_mem ?T' b = qt_mem ?T3 b" by (rule sl(2))
      qed
      show "MEM_LEAFS ?T' = MEM_LEAFS ?T3" by (rule mlf')
    qed
    then show ?thesis
      using area_sub1 [of ?N ?L ?nc ?bc "inners_in cs" "bytes_in cs"] by (auto intro: repr_mono)
  qed
  have "slots_written inner i (Some c # cs) st st'"
  proof (rule slots_written_intro)
    from nw(1) have h3: "header_eq ?T3 ?T" by (simp add: advanced_def)
    from sl(1) have h': "header_eq ?T' ?T3" by (simp add: advanced_def)
    show "advanced st st' (inners_in (Some c # cs)) (bytes_in (Some c # cs))"
      using sl(1) nw(1) header_eq_trans [OF h' h3] by (simp add: advanced_def)
  next
    fix b assume b: "b \<noteq> inner" "b \<notin> ?A"
    with area_sub1 [of ?N ?L ?nc ?bc "inners_in cs" "bytes_in cs"]
      area_sub2 [of ?N ?nc ?L ?bc "inners_in cs" "bytes_in cs"]
    have "b \<notin> area ?N ?L ?nc ?bc" "b \<notin> area (?N + ?nc) (?L + ?bc) (inners_in cs) (bytes_in cs)"
      by auto
    with sl(2) [of b] nw(2) [of b] b(1) show "qt_mem ?T' b = qt_mem ?T b"
      by (simp add: mem_set_inner_quadrant)
  next
    show "qt_mem ?T' inner = Some (Node_Inner (offsets_at ?T' inner))"
    proof (cases "cs = []")
      case True
      with run have "st' = st3" by simp
      with mem3_inner off3 show ?thesis by simp
    next
      case False
      with sl(3) show ?thesis by simp
    qed
  next
    show "length (offsets_at ?T' inner) = i + length (Some c # cs)" using sl(4) by simp
  next
    fix j assume "j < i"
    with sl(5) [of j] off3 show "offsets_at ?T' inner ! j = offsets_at ?T inner ! j" by simp
  next
    fix j assume j: "j < length (Some c # cs)" "(Some c # cs) ! j = None"
    then obtain j' where Suc: "j = Suc j'" by (cases j) auto
    with j have "j' < length cs" "cs ! j' = None" by simp_all
    from en(1) [OF this] Suc show "offsets_at ?T' inner ! (i + j) = ROOT" by simp
  next
    fix j c' assume j: "j < length (Some c # cs)" "(Some c # cs) ! j = Some c'"
    show "offsets_at ?T' inner ! (i + j) \<noteq> ROOT \<and> repr ?T' ?A (offsets_at ?T' inner ! (i + j)) c'"
    proof (cases j)
      case 0
      with j at_i repr_c ca_nz ca_eq show ?thesis by simp
    next
      case (Suc j')
      with j have "j' < length cs" "cs ! j' = Some c'" by simp_all
      from en(2) [OF this] Suc area_sub2 [of ?N ?nc ?L ?bc "inners_in cs" "bytes_in cs"]
      show ?thesis by (auto intro: repr_mono)
    qed
  qed
  moreover have "qt_finalise_for inner i (Some c # cs) st = Inr st'"
    using run3 run by (simp add: Let_def)
  ultimately show ?case by blast
qed

lemma qt_finalise_repr:
  assumes "builder_ok B"
  shows "\<exists>T. qt_finalise B = Inr T \<and> header_eq T (init_quadtree B) \<and> repr T UNIV 0 (uf_root B)"
proof -
  let ?T0 = "init_quadtree B"
  let ?st = "\<lparr> st_quadtree = ?T0, st_ninners = 0, st_cur_node = MEM_INNERS, st_next_leaf = MEM_LEAFS ?T0 \<rparr>"
  from assms have wf: "wf_node (uf_root B)" and inner: "is_inner (uf_root B)"
    and cnt: "uf_ninners B = n_inners (uf_root B)"
    by (simp_all add: builder_ok_def)
  have p2: "if is_inner (uf_root B) then st_cur_node ?st = sizeof_Inner * st_ninners ?st
            else st_cur_node ?st = st_next_leaf ?st"
    using inner by (simp add: MEM_INNERS_def)
  have p3: "layout_free ?st (n_inners (uf_root B)) (leaf_bytes (uf_root B))"
    using cnt by (simp add: layout_free_def MEM_LEAFS_def MEM_INNERS_def init_quadtree_def mult.commute)
  from finalise_layout(1) [OF wf p2 p3] obtain st' where
    run: "qt_finalise_node (uf_root B) ?st = Inr st'" and post: "node_written (uf_root B) ?st st'"
    by blast
  note nw = node_written_elims [OF post]
  from run have "qt_finalise B = Inr (st_quadtree st')"
    by (simp add: qt_finalise_def Let_def)
  moreover from nw(1) have "header_eq (st_quadtree st') ?T0" by (simp add: advanced_def)
  moreover from nw(3) have "repr (st_quadtree st') UNIV 0 (uf_root B)"
    by (auto intro: repr_mono simp: MEM_INNERS_def)
  ultimately show ?thesis by blast
qed

section \<open>Traversals of the finalised tree\<close>

lemma reaches_repr:
  assumes rtn: "repr T UNIV MEM_ROOT rt" "wf_node rt" "leaves_nonempty rt"
    "below inners_have_child rt"
    and r: "reaches T b"
  shows "\<exists>t. repr T UNIV b t \<and> wf_node t \<and> leaves_nonempty t \<and>
             ((b = MEM_ROOT \<and> t = rt) \<or> (b \<noteq> MEM_ROOT \<and> inners_have_child t))"
  using r
proof induction
  case reaches_root
  with rtn show ?case by blast
next
  case (reaches_child a offs i)
  then obtain t where t: "repr T UNIV a t" "wf_node t" "leaves_nonempty t"
    "(a = MEM_ROOT \<and> t = rt) \<or> (a \<noteq> MEM_ROOT \<and> inners_have_child t)"
    by blast
  from reaches_child.hyps(2) have lt: "a < MEM_LEAFS T"
    by (simp add: IS_INNER_def IS_LEAF_def)
  obtain qs where qs: "t = TransInner qs"
    using t(1) lt by (cases t) auto
  from t(1) reaches_child.hyps(3) have offs: "qt_mem T a = Some (Node_Inner offs)"
    "length offs = length qs"
    "\<forall>(off, oc) \<in> set (zip offs qs). case oc of None \<Rightarrow> off = ROOT | Some c \<Rightarrow> off \<noteq> ROOT \<and> repr T UNIV off c"
    unfolding qs by (auto simp: as_inner_def split: option.splits Node.splits)
  from reaches_child.hyps(4) offs(2) have "(offs ! i, qs ! i) \<in> set (zip offs qs)"
    by (auto simp: set_zip)
  with offs(3) reaches_child.hyps(5) obtain c where c: "qs ! i = Some c" "repr T UNIV (offs ! i) c"
    by (cases "qs ! i") auto
  have mem: "Some c \<in> set qs"
    using c(1) reaches_child.hyps(4) offs(2) nth_mem [of i qs] by simp
  from mem t(2,3) have "wf_node c" "leaves_nonempty c" unfolding qs by auto
  moreover from mem t(4) rtn(4) have "inners_have_child c" unfolding qs by auto
  moreover from reaches_child.hyps(5) have "MEM_INNERS + offs ! i \<noteq> MEM_ROOT"
    by (simp add: MEM_INNERS_def MEM_ROOT_def ROOT_def)
  ultimately show ?case using c(2) by (auto simp: MEM_INNERS_def)
qed

lemma unat_ucast_32_64: "unat (ucast (k :: 32 word) :: 64 word) = unat k"
  apply (simp add: unsigned_ucast_eq)
  apply (rule take_bit_nat_eq_self)
  using unsigned_less [of k, where ?'a = nat] apply simp
  done

lemma reaches_leaf:
  assumes "repr T UNIV b t" "wf_node t" "leaves_nonempty t" "IS_LEAF T b"
  shows "\<exists>k its. as_leaf T b = Inr (k, its) \<and> 1 \<le> k \<and> unat k = length its"
proof (cases t)
  case (TransInner qs)
  with assms show ?thesis by (simp add: IS_LEAF_def)
next
  case (TransLeaf its k sz)
  with assms have mem: "qt_mem T b = Some (Node_Leaf (ucast k) (take (unat k) its))"
    and k: "1 \<le> k" "unat k = length its" by simp_all
  have "unat (ucast k :: 64 word) = unat k"
    by (rule unat_ucast_32_64)
  moreover from k(1) have "1 \<le> unat k" by (simp add: word_le_nat_alt)
  ultimately have "(1 :: 64 word) \<le> ucast k" "unat (ucast k :: 64 word) = length (take (unat k) its)"
    using k(2) by (simp_all add: word_le_nat_alt)
  with mem show ?thesis by (simp add: as_leaf_def)
qed

lemma reaches_inner:
  assumes "repr T UNIV b t" "wf_node t" "inners_have_child t" "IS_INNER T b"
  shows "\<exists>offs. as_inner T b = Inr offs \<and> length offs = 4 \<and> (\<exists>i<4. offs ! i \<noteq> ROOT)"
proof (cases t)
  case (TransLeaf its k sz)
  with assms show ?thesis by (simp add: IS_INNER_def IS_LEAF_def)
next
  case (TransInner qs)
  with assms obtain offs where offs: "qt_mem T b = Some (Node_Inner offs)" "length offs = length qs"
    "\<forall>(off, oc) \<in> set (zip offs qs). case oc of None \<Rightarrow> off = ROOT | Some c \<Rightarrow> off \<noteq> ROOT \<and> repr T UNIV off c"
    by auto
  from assms TransInner have len: "length qs = 4" by simp
  from assms TransInner obtain c where "Some c \<in> set qs" by auto
  then obtain i where i: "i < length qs" "qs ! i = Some c" by (auto simp: in_set_conv_nth)
  with offs(2) have "(offs ! i, qs ! i) \<in> set (zip offs qs)" by (auto simp: set_zip)
  with offs(3) i have "offs ! i \<noteq> ROOT" by auto
  with offs i len show ?thesis by (auto simp: as_inner_def)
qed


section \<open>No leaf is empty\<close>

text \<open>
  \<^bold>\<open>C10.\<close> After any sequence of completed insertions every leaf of the builder tree
  holds at least one item. The tree is then finalised without error, and every leaf that
  a traversal of the finalised tree reaches from the root has a count \<open>n \<ge> 1\<close> that is the
  number of its items, so that \<open>n - 1\<close> in the loop condition of \<^verbatim>\<open>qt_itr_next\<close> does not
  wrap around.
\<close>

theorem leaves_hold_an_item:
  assumes "qt_build fuel region maxfill items = Inr B"
  shows "leaves_nonempty (uf_root B) \<and>
         (\<exists>T. qt_finalise B = Inr T \<and>
              (\<forall>a. reaches T a \<and> IS_LEAF T a \<longrightarrow>
                 (\<exists>k its. as_leaf T a = Inr (k, its) \<and> 1 \<le> k \<and> unat k = length its \<and>
                           unat (k - 1) = length its - 1)))"
proof -
  from qt_build_ok(1) [OF assms] have ok: "builder_ok B" .
  then have rt: "wf_node (uf_root B)" "leaves_nonempty (uf_root B)"
    "below inners_have_child (uf_root B)"
    by (simp_all add: builder_ok_def)
  from qt_finalise_repr [OF ok] obtain T where T: "qt_finalise B = Inr T"
    and rep: "repr T UNIV MEM_ROOT (uf_root B)"
    by (auto simp: MEM_ROOT_def MEM_INNERS_def)
  have "\<exists>k its. as_leaf T a = Inr (k, its) \<and> 1 \<le> k \<and> unat k = length its \<and>
                 unat (k - 1) = length its - 1"
    if a: "reaches T a" "IS_LEAF T a" for a
  proof -
    from reaches_repr [OF rep rt a(1)] obtain t where
      "repr T UNIV a t" "wf_node t" "leaves_nonempty t" by blast
    from reaches_leaf [OF this a(2)] obtain k its where
      k: "as_leaf T a = Inr (k, its)" "1 \<le> k" "unat k = length its" by blast
    from k(2) have "unat (k - 1) = unat k - 1" by (simp add: unat_sub)
    with k show ?thesis by simp
  qed
  with T rt(2) show ?thesis by blast
qed

theorem leaves_hold_an_item_witness:
  "qt_build 4 \<lparr>ne = (10, 10), sw = (0, 0)\<rparr> 2 
      [\<lparr>ivalue = 1, coords = (1, 1)\<rparr>, \<lparr>ivalue = 2, coords = (2, 2)\<rparr>, \<lparr>ivalue = 3, coords = (3, 3)\<rparr>] = Inr \<lparr>uf_root = TransInner [None, None,
              Some (TransInner [None, Some (TransLeaf [\<lparr>ivalue = 3, coords = (3, 3)\<rparr>] 1 2),
                      Some (TransLeaf [\<lparr>ivalue = 1, coords = (1, 1)\<rparr>, \<lparr>ivalue = 2, coords = (2, 2)\<rparr>] 2 2),
                      None]),
              None],
            uf_region = \<lparr>ne = (10, 10), sw = (0, 0)\<rparr>, uf_size = 3, uf_maxdepth = 3,
            uf_maxfill = 2, uf_ninners = 2, uf_nleafs = 2\<rparr> \<and>
   leaves_nonempty (uf_root \<lparr>uf_root = TransInner [None, None,
              Some (TransInner [None, Some (TransLeaf [\<lparr>ivalue = 3, coords = (3, 3)\<rparr>] 1 2),
                      Some (TransLeaf [\<lparr>ivalue = 1, coords = (1, 1)\<rparr>, \<lparr>ivalue = 2, coords = (2, 2)\<rparr>] 2 2),
                      None]),
              None],
            uf_region = \<lparr>ne = (10, 10), sw = (0, 0)\<rparr>, uf_size = 3, uf_maxdepth = 3,
            uf_maxfill = 2, uf_ninners = 2, uf_nleafs = 2\<rparr>) \<and>
   (\<exists>T. qt_finalise \<lparr>uf_root = TransInner [None, None,
              Some (TransInner [None, Some (TransLeaf [\<lparr>ivalue = 3, coords = (3, 3)\<rparr>] 1 2),
                      Some (TransLeaf [\<lparr>ivalue = 1, coords = (1, 1)\<rparr>, \<lparr>ivalue = 2, coords = (2, 2)\<rparr>] 2 2),
                      None]),
              None],
            uf_region = \<lparr>ne = (10, 10), sw = (0, 0)\<rparr>, uf_size = 3, uf_maxdepth = 3,
            uf_maxfill = 2, uf_ninners = 2, uf_nleafs = 2\<rparr> = Inr T \<and>
        (\<forall>a. reaches T a \<and> IS_LEAF T a \<longrightarrow>
           (\<exists>k its. as_leaf T a = Inr (k, its) \<and> 1 \<le> k \<and> unat k = length its \<and>
                     unat (k - 1) = length its - 1)))"
proof -
  have run: "qt_build 4 \<lparr>ne = (10, 10), sw = (0, 0)\<rparr> 2 
      [\<lparr>ivalue = 1, coords = (1, 1)\<rparr>, \<lparr>ivalue = 2, coords = (2, 2)\<rparr>, \<lparr>ivalue = 3, coords = (3, 3)\<rparr>] = Inr \<lparr>uf_root = TransInner [None, None,
              Some (TransInner [None, Some (TransLeaf [\<lparr>ivalue = 3, coords = (3, 3)\<rparr>] 1 2),
                      Some (TransLeaf [\<lparr>ivalue = 1, coords = (1, 1)\<rparr>, \<lparr>ivalue = 2, coords = (2, 2)\<rparr>] 2 2),
                      None]),
              None],
            uf_region = \<lparr>ne = (10, 10), sw = (0, 0)\<rparr>, uf_size = 3, uf_maxdepth = 3,
            uf_maxfill = 2, uf_ninners = 2, uf_nleafs = 2\<rparr>"
    by code_simp
  from leaves_hold_an_item [OF run] run show ?thesis by simp
qed

section \<open>Inner nodes and their children\<close>

text \<open>
  \<^bold>\<open>C8.\<close> The root of a builder into which no item has been inserted is an inner node
  whose four child slots are all empty, in the builder and in the tree finalised from it.
\<close>

theorem empty_builder_root_has_no_child:
  "\<not> inners_have_child (uf_root (qt_create_quadtree \<lparr>ne = (10, 10), sw = (0, 0)\<rparr> 2)) \<and>
   uf_root (qt_create_quadtree \<lparr>ne = (10, 10), sw = (0, 0)\<rparr> 2) = TransInner [None, None, None, None] \<and>
   (case qt_finalise (qt_create_quadtree \<lparr>ne = (10, 10), sw = (0, 0)\<rparr> 2) of
      Inl e \<Rightarrow> False
    | Inr T \<Rightarrow> as_inner T MEM_ROOT = Inr [ROOT, ROOT, ROOT, ROOT])"
proof -
  have "uf_root (qt_create_quadtree \<lparr>ne = (10, 10), sw = (0, 0)\<rparr> 2) = TransInner [None, None, None, None]"
    by (simp add: qt_create_quadtree_def nullify_quadrants_def)
  moreover from this
  have "\<not> inners_have_child (uf_root (qt_create_quadtree \<lparr>ne = (10, 10), sw = (0, 0)\<rparr> 2))"
    by simp
  moreover
  have "(case qt_finalise (qt_create_quadtree \<lparr>ne = (10, 10), sw = (0, 0)\<rparr> 2) of
           Inl e \<Rightarrow> False
         | Inr T \<Rightarrow> as_inner T MEM_ROOT = Inr [ROOT, ROOT, ROOT, ROOT])"
    by code_simp
  ultimately show ?thesis by blast
qed

text \<open>
  \<^bold>\<open>C8\<close>, below the root. After any sequence of completed insertions every inner node below the
  root has a non-empty child slot, and so has the root once an item has been inserted. The
  same holds in the finalised tree: every inner node that a traversal reaches, the root
  excepted when the builder was empty, has a child offset other than \<^verbatim>\<open>ROOT\<close>.
\<close>

theorem inner_nodes_have_child:
  assumes "qt_build fuel region maxfill items = Inr B"
  shows "below inners_have_child (uf_root B) \<and>
         (items \<noteq> [] \<longrightarrow> inners_have_child (uf_root B)) \<and>
         (\<exists>T. qt_finalise B = Inr T \<and>
              (\<forall>a. reaches T a \<and> IS_INNER T a \<and> (a \<noteq> MEM_ROOT \<or> items \<noteq> []) \<longrightarrow>
                 (\<exists>offs. as_inner T a = Inr offs \<and> length offs = 4 \<and> (\<exists>i<4. offs ! i \<noteq> ROOT))))"
proof -
  from qt_build_ok(1) [OF assms] have ok: "builder_ok B" .
  then have rt: "wf_node (uf_root B)" "leaves_nonempty (uf_root B)"
    "below inners_have_child (uf_root B)"
    by (simp_all add: builder_ok_def)
  have nonempty: "inners_have_child (uf_root B)" if "items \<noteq> []"
    using qt_build_ok(7) [OF assms that] .
  from qt_finalise_repr [OF ok] obtain T where T: "qt_finalise B = Inr T"
    and rep: "repr T UNIV MEM_ROOT (uf_root B)"
    by (auto simp: MEM_ROOT_def MEM_INNERS_def)
  have "\<exists>offs. as_inner T a = Inr offs \<and> length offs = 4 \<and> (\<exists>i<4. offs ! i \<noteq> ROOT)"
    if a: "reaches T a" "IS_INNER T a" "a \<noteq> MEM_ROOT \<or> items \<noteq> []" for a
  proof -
    from reaches_repr [OF rep rt a(1)] obtain t where
      t: "repr T UNIV a t" "wf_node t"
      "(a = MEM_ROOT \<and> t = uf_root B) \<or> (a \<noteq> MEM_ROOT \<and> inners_have_child t)" by blast
    from t(3) a(3) nonempty have "inners_have_child t" by blast
    from reaches_inner [OF t(1,2) this a(2)] show ?thesis .
  qed
  with T rt(3) nonempty show ?thesis by blast
qed

theorem inner_nodes_have_child_witness:
  "qt_build 4 \<lparr>ne = (10, 10), sw = (0, 0)\<rparr> 2 
      [\<lparr>ivalue = 1, coords = (1, 1)\<rparr>, \<lparr>ivalue = 2, coords = (2, 2)\<rparr>, \<lparr>ivalue = 3, coords = (3, 3)\<rparr>] = Inr \<lparr>uf_root = TransInner [None, None,
              Some (TransInner [None, Some (TransLeaf [\<lparr>ivalue = 3, coords = (3, 3)\<rparr>] 1 2),
                      Some (TransLeaf [\<lparr>ivalue = 1, coords = (1, 1)\<rparr>, \<lparr>ivalue = 2, coords = (2, 2)\<rparr>] 2 2),
                      None]),
              None],
            uf_region = \<lparr>ne = (10, 10), sw = (0, 0)\<rparr>, uf_size = 3, uf_maxdepth = 3,
            uf_maxfill = 2, uf_ninners = 2, uf_nleafs = 2\<rparr> \<and>
   below inners_have_child (uf_root \<lparr>uf_root = TransInner [None, None,
              Some (TransInner [None, Some (TransLeaf [\<lparr>ivalue = 3, coords = (3, 3)\<rparr>] 1 2),
                      Some (TransLeaf [\<lparr>ivalue = 1, coords = (1, 1)\<rparr>, \<lparr>ivalue = 2, coords = (2, 2)\<rparr>] 2 2),
                      None]),
              None],
            uf_region = \<lparr>ne = (10, 10), sw = (0, 0)\<rparr>, uf_size = 3, uf_maxdepth = 3,
            uf_maxfill = 2, uf_ninners = 2, uf_nleafs = 2\<rparr>) \<and>
   inners_have_child (uf_root \<lparr>uf_root = TransInner [None, None,
              Some (TransInner [None, Some (TransLeaf [\<lparr>ivalue = 3, coords = (3, 3)\<rparr>] 1 2),
                      Some (TransLeaf [\<lparr>ivalue = 1, coords = (1, 1)\<rparr>, \<lparr>ivalue = 2, coords = (2, 2)\<rparr>] 2 2),
                      None]),
              None],
            uf_region = \<lparr>ne = (10, 10), sw = (0, 0)\<rparr>, uf_size = 3, uf_maxdepth = 3,
            uf_maxfill = 2, uf_ninners = 2, uf_nleafs = 2\<rparr>) \<and>
   (\<exists>T. qt_finalise \<lparr>uf_root = TransInner [None, None,
              Some (TransInner [None, Some (TransLeaf [\<lparr>ivalue = 3, coords = (3, 3)\<rparr>] 1 2),
                      Some (TransLeaf [\<lparr>ivalue = 1, coords = (1, 1)\<rparr>, \<lparr>ivalue = 2, coords = (2, 2)\<rparr>] 2 2),
                      None]),
              None],
            uf_region = \<lparr>ne = (10, 10), sw = (0, 0)\<rparr>, uf_size = 3, uf_maxdepth = 3,
            uf_maxfill = 2, uf_ninners = 2, uf_nleafs = 2\<rparr> = Inr T \<and>
        (\<forall>a. reaches T a \<and> IS_INNER T a \<longrightarrow>
           (\<exists>offs. as_inner T a = Inr offs \<and> length offs = 4 \<and> (\<exists>i<4. offs ! i \<noteq> ROOT))))"
proof -
  have run: "qt_build 4 \<lparr>ne = (10, 10), sw = (0, 0)\<rparr> 2 
      [\<lparr>ivalue = 1, coords = (1, 1)\<rparr>, \<lparr>ivalue = 2, coords = (2, 2)\<rparr>, \<lparr>ivalue = 3, coords = (3, 3)\<rparr>] = Inr \<lparr>uf_root = TransInner [None, None,
              Some (TransInner [None, Some (TransLeaf [\<lparr>ivalue = 3, coords = (3, 3)\<rparr>] 1 2),
                      Some (TransLeaf [\<lparr>ivalue = 1, coords = (1, 1)\<rparr>, \<lparr>ivalue = 2, coords = (2, 2)\<rparr>] 2 2),
                      None]),
              None],
            uf_region = \<lparr>ne = (10, 10), sw = (0, 0)\<rparr>, uf_size = 3, uf_maxdepth = 3,
            uf_maxfill = 2, uf_ninners = 2, uf_nleafs = 2\<rparr>"
    by code_simp
  from inner_nodes_have_child [OF run] run show ?thesis by simp
qed

section \<open>Insertion of coincident items\<close>

lemma insert_inner_eq:
  "insert_inner ins qt qs item q depth =
     (if \<not> ASSERT_REGION_SANE (gen_quadrants_mem q ! spec_child item q) then Inl Assert_failed
      else case ins (fst (case qs ! spec_child item q of None \<Rightarrow> init_leaf_node qt | Some c \<Rightarrow> (qt, c)))
                    (snd (case qs ! spec_child item q of None \<Rightarrow> init_leaf_node qt | Some c \<Rightarrow> (qt, c)))
                    item (gen_quadrants_mem q ! spec_child item q) depth of
             Inl e \<Rightarrow> Inl e
           | Inr (qt', child') \<Rightarrow> Inr (qt', TransInner (qs[spec_child item q := Some child'])))"
proof (cases q)
  case (fields qne qsw)
  show ?thesis
    unfolding fields
    by (auto simp add: insert_inner_def spec_child_def gen_quadrants_mem_def CALCDIVS_def Let_def
          quad_cases quadindex_defs
        split: if_splits prod.splits sum.splits option.splits)
qed

lemma child_quadrant_ok:
  assumes "ASSERT_REGION_SANE q" "in_quadrant item q"
  shows "ASSERT_REGION_SANE (gen_quadrants_mem q ! spec_child item q)"
    and "in_quadrant item (gen_quadrants_mem q ! spec_child item q)"
  using assms
  by (auto simp: ASSERT_REGION_SANE_def in_quadrant_def gen_quadrants_mem_def spec_child_def
      CALCDIVS_def Let_def quadindex_defs field_simps)

lemma spec_child_coords: "coords i = coords j \<Longrightarrow> spec_child i q = spec_child j q"
  by (simp add: spec_child_def Let_def)

lemma in_quadrant_coords: "coords i = coords j \<Longrightarrow> in_quadrant i q = in_quadrant j q"
  by (simp add: in_quadrant_def)

lemma coincident_not_distinct:
  assumes "\<forall>i\<in>set its. coords i = c"
  shows "\<not> distinct_items_exist (TransLeaf its n sz)"
proof -
  have "\<forall>i\<in>set (take (unat n) its). coords i = c"
    using assms by (auto dest: in_set_takeD)
  then show ?thesis
    by (simp add: distinct_items_exist_def distinct_scan_iff itemcmp_eq0)
qed

lemma qt_insert_all_append:
  "qt_insert_all fuel qt (xs @ ys) =
     (case qt_insert_all fuel qt xs of Inl e \<Rightarrow> Inl e | Inr qt' \<Rightarrow> qt_insert_all fuel qt' ys)"
  by (induction xs arbitrary: qt) (auto split: sum.splits)

lemma nullify_quadrants_nth: "i < 4 \<Longrightarrow> nullify_quadrants ! i = None"
  by (auto simp: nullify_quadrants_def dest!: less4)

lemma length_nullify_quadrants: "length nullify_quadrants = 4"
  by (simp add: nullify_quadrants_def)

lemma insert_first:
  assumes "in_quadrant item R" "ASSERT_REGION_SANE R" "1 \<le> b"
  shows "qt_insert (Suc (Suc f)) (qt_create_quadtree R b) item =
           Inr \<lparr>uf_root = TransInner (nullify_quadrants[spec_child item R := Some (TransLeaf [item] 1 b)]),
                uf_region = R, uf_size = 1, uf_maxdepth = 2, uf_maxfill = b,
                uf_ninners = 1, uf_nleafs = 1\<rparr>"
proof -
  have b: "0 < unat b" using assms(3) by (simp add: word_le_nat_alt)
  then have "b \<noteq> 0" by auto
  then have nb: "\<not> 1 > b" by (simp add: word_less_1)
  have lt: "spec_child item R < 4" by (rule spec_child_less)
  show ?thesis
    using assms(1,2) child_quadrant_ok [OF assms(2,1)] b nb lt
    by (simp add: qt_insert_def qt_create_quadtree_def qt_insert_rec_Suc qt_insert_restart_def
        insert_inner_eq nullify_quadrants_nth length_nullify_quadrants init_leaf_node_def
        bump_maxdepth_def ensure_bucket_size_def Let_def del: qt_insert_rec.simps)
qed

lemma insert_next:
  fixes n sz :: "32 word"
  assumes "in_quadrant item R" "ASSERT_REGION_SANE R" "spec_child item R = quad"
    and "\<forall>i\<in>set its. coords i = c" "unat n = length its" "1 \<le> unat n" "unat n \<le> unat sz"
    and "unat n < 2 ^ 31"
  shows "qt_insert (Suc (Suc f))
           \<lparr>uf_root = TransInner (nullify_quadrants[quad := Some (TransLeaf its n sz)]),
            uf_region = R, uf_size = s, uf_maxdepth = 2, uf_maxfill = b,
            uf_ninners = 1, uf_nleafs = 1\<rparr> item =
         Inr \<lparr>uf_root = TransInner (nullify_quadrants[quad :=
                  Some (TransLeaf (its @ [item]) (n + 1) (if n = sz then sz * 2 else sz))]),
              uf_region = R, uf_size = s + 1, uf_maxdepth = 2, uf_maxfill = b,
              uf_ninners = 1, uf_nleafs = 1\<rparr>"
proof -
  have lt: "quad < 4" using spec_child_less [of item R] assms(3) by simp
  have un1: "unat (n + 1) = unat n + 1"
    using assms(8) by (simp add: unat_add_lem [THEN iffD1])
  have cmp: "n + 1 > sz \<longleftrightarrow> n = sz"
    using assms(7) un1 by (auto simp: word_less_nat_alt word_unat_eq_iff)
  have nd: "\<not> distinct_items_exist (TransLeaf its k z)" for k z
    by (rule coincident_not_distinct [OF assms(4)])
  have dbl: "unat n < unat (sz * 2)" if "n = sz"
  proof -
    have "unat (sz * 2) = unat sz * 2"
      using assms(8) that by (simp add: unat_mult_lem [THEN iffD1])
    with assms(6) that show ?thesis by simp
  qed
  have lt2: "unat n < unat sz" if "n \<noteq> sz"
    using that assms(7) by (simp add: word_unat_eq_iff)
  note cq = child_quadrant_ok [OF assms(2,1), unfolded assms(3)]
  show ?thesis
    using assms(1,2) cq lt cmp nd dbl lt2
    by (simp add: qt_insert_def qt_insert_rec_Suc qt_insert_restart_def
        insert_inner_eq assms(3) nullify_quadrants_nth length_nullify_quadrants bump_maxdepth_def
        ensure_bucket_size_def split_node_def Let_def del: qt_insert_rec.simps)
qed


lemma coincident_build:
  assumes "items \<noteq> []"
  shows "(\<forall>i\<in>set items. coords i = c \<and> in_quadrant i R) \<longrightarrow> length items \<le> 2 ^ 31 \<longrightarrow>
         1 \<le> b \<longrightarrow> ASSERT_REGION_SANE R \<longrightarrow>
         (\<exists>sz. qt_build (Suc (Suc f)) R b items =
                 Inr \<lparr>uf_root = TransInner (nullify_quadrants[spec_child (hd items) R :=
                          Some (TransLeaf items (of_nat (length items)) sz)]),
                      uf_region = R, uf_size = length items, uf_maxdepth = 2, uf_maxfill = b,
                      uf_ninners = 1, uf_nleafs = 1\<rparr> \<and>
               length items \<le> unat sz \<and> (length items \<le> unat b \<longrightarrow> sz = b))"
  using assms
proof (induction items rule: rev_nonempty_induct)
  case (single x)
  show ?case
  proof (intro impI)
    assume a: "\<forall>i\<in>set [x]. coords i = c \<and> in_quadrant i R" "1 \<le> b" "ASSERT_REGION_SANE R"
    then have "in_quadrant x R" by simp
    from insert_first [OF this a(3,2), of f] a(2) show "\<exists>sz. qt_build (Suc (Suc f)) R b [x] =
                 Inr \<lparr>uf_root = TransInner (nullify_quadrants[spec_child (hd [x]) R :=
                          Some (TransLeaf [x] (of_nat (length [x])) sz)]),
                      uf_region = R, uf_size = length [x], uf_maxdepth = 2, uf_maxfill = b,
                      uf_ninners = 1, uf_nleafs = 1\<rparr> \<and>
               length [x] \<le> unat sz \<and> (length [x] \<le> unat b \<longrightarrow> sz = b)"
      by (simp add: qt_build_def word_le_nat_alt del: qt_insert_rec.simps)
  qed
next
  case (snoc x xs)
  show ?case
  proof (intro impI)
    assume a: "\<forall>i\<in>set (xs @ [x]). coords i = c \<and> in_quadrant i R" "length (xs @ [x]) \<le> 2 ^ 31"
      "1 \<le> b" "ASSERT_REGION_SANE R"
    then have pre: "\<forall>i\<in>set xs. coords i = c \<and> in_quadrant i R" "length xs \<le> 2 ^ 31" by simp_all
    from snoc.IH pre a(3,4) obtain sz where
      run: "qt_build (Suc (Suc f)) R b xs =
             Inr \<lparr>uf_root = TransInner (nullify_quadrants[spec_child (hd xs) R :=
                          Some (TransLeaf xs (of_nat (length xs)) sz)]),
                  uf_region = R, uf_size = length xs, uf_maxdepth = 2, uf_maxfill = b,
                  uf_ninners = 1, uf_nleafs = 1\<rparr>"
      and sz: "length xs \<le> unat sz" "length xs \<le> unat b \<longrightarrow> sz = b"
      by blast
    let ?n = "of_nat (length xs) :: 32 word"
    from a(2) have len: "length xs < 2 ^ 31" by simp
    then have un: "unat ?n = length xs"
      by (simp add: unat_of_nat)
    from snoc.hyps have "hd xs \<in> set xs" by simp
    with a(1) have "coords (hd xs) = coords x" by simp
    then have quad: "spec_child x R = spec_child (hd xs) R" by (rule spec_child_coords [symmetric])
    from a(1) have inq: "in_quadrant x R" by simp
    from pre(1) have co: "\<forall>i\<in>set xs. coords i = c" by simp
    from snoc.hyps have pos: "1 \<le> unat ?n" unfolding un by (cases xs) simp_all
    have le: "unat ?n \<le> unat sz" unfolding un by (rule sz(1))
    have lt: "unat ?n < 2 ^ 31" unfolding un by (rule len)
    note step = insert_next [OF inq a(4) quad co un pos le lt, of f "length xs" b]
    let ?sz' = "if ?n = sz then sz * 2 else sz"
    have n1: "?n + 1 = of_nat (length (xs @ [x]))" by simp
    have hd: "hd (xs @ [x]) = hd xs" using snoc.hyps by simp
    have "qt_build (Suc (Suc f)) R b (xs @ [x]) =
            Inr \<lparr>uf_root = TransInner (nullify_quadrants[spec_child (hd (xs @ [x])) R :=
                          Some (TransLeaf (xs @ [x]) (of_nat (length (xs @ [x]))) ?sz')]),
                 uf_region = R, uf_size = length (xs @ [x]), uf_maxdepth = 2, uf_maxfill = b,
                 uf_ninners = 1, uf_nleafs = 1\<rparr>"
      unfolding hd n1 [symmetric]
      using run step
      by (simp add: qt_build_def qt_insert_all_append del: qt_insert_rec.simps)
    moreover have "length (xs @ [x]) \<le> unat ?sz'"
    proof (cases "?n = sz")
      case True
      then have "unat sz < 2 ^ 31" using lt by simp
      then have "unat (sz * 2) = unat sz * 2"
        by (simp add: unat_mult_lem [THEN iffD1])
      with True pos un show ?thesis by simp
    next
      case False
      then have "unat ?n \<noteq> unat sz" by (simp add: word_unat_eq_iff)
      with le un False show ?thesis by simp
    qed
    moreover have "length (xs @ [x]) \<le> unat b \<longrightarrow> ?sz' = b"
    proof
      assume l: "length (xs @ [x]) \<le> unat b"
      then have "sz = b" using sz(2) by simp
      moreover from l un have "unat ?n \<noteq> unat b" by simp
      then have "?n \<noteq> b" by auto
      ultimately show "?sz' = b" by simp
    qed
    ultimately show "\<exists>sz. qt_build (Suc (Suc f)) R b (xs @ [x]) =
                 Inr \<lparr>uf_root = TransInner (nullify_quadrants[spec_child (hd (xs @ [x])) R :=
                          Some (TransLeaf (xs @ [x]) (of_nat (length (xs @ [x]))) sz)]),
                      uf_region = R, uf_size = length (xs @ [x]), uf_maxdepth = 2, uf_maxfill = b,
                      uf_ninners = 1, uf_nleafs = 1\<rparr> \<and>
               length (xs @ [x]) \<le> unat sz \<and> (length (xs @ [x]) \<le> unat b \<longrightarrow> sz = b)"
      by blast
  qed
qed

lemma insert_overflow:
  fixes n :: "32 word"
  assumes "in_quadrant item R" "ASSERT_REGION_SANE R" "spec_child item R = quad"
    and "\<forall>i\<in>set its. coords i = c" "n = 2 ^ 31"
  shows "qt_insert (Suc (Suc f))
           \<lparr>uf_root = TransInner (nullify_quadrants[quad := Some (TransLeaf its n n)]),
            uf_region = R, uf_size = s, uf_maxdepth = 2, uf_maxfill = b,
            uf_ninners = 1, uf_nleafs = 1\<rparr> item = Inl Out_of_bounds"
proof -
  have lt: "quad < 4" using spec_child_less [of item R] assms(3) by simp
  have nd: "\<not> distinct_items_exist (TransLeaf its k z)" for k z
    by (rule coincident_not_distinct [OF assms(4)])
  have w: "(2 ^ 31 :: 32 word) + 1 > 2 ^ 31" "(2 ^ 31 :: 32 word) * 2 = 0" by simp_all
  note cq = child_quadrant_ok [OF assms(2,1), unfolded assms(3)]
  show ?thesis
    using assms(1,2) cq lt nd w unfolding assms(5)
    by (simp add: qt_insert_def qt_insert_rec_Suc qt_insert_restart_def
        insert_inner_eq assms(3) nullify_quadrants_nth length_nullify_quadrants bump_maxdepth_def
        ensure_bucket_size_def split_node_def Let_def del: qt_insert_rec.simps)
qed

lemma coincident_overflow:
  assumes "length xs = 2 ^ 31" "\<forall>i\<in>set (xs @ [x]). coords i = c \<and> in_quadrant i R"
    "ASSERT_REGION_SANE R"
  shows "qt_build (Suc (Suc f)) R (2 ^ 31) (xs @ [x]) = Inl Out_of_bounds"
proof -
  from assms(1) have ne: "xs \<noteq> []" by auto
  have b: "unat (2 ^ 31 :: 32 word) = 2 ^ 31" "(1 :: 32 word) \<le> 2 ^ 31" by simp_all
  from assms(2) have pre: "\<forall>i\<in>set xs. coords i = c \<and> in_quadrant i R" by simp
  from coincident_build [OF ne, of c R "2 ^ 31" f] pre assms(1,3) b
  have run: "qt_build (Suc (Suc f)) R (2 ^ 31) xs =
                 Inr \<lparr>uf_root = TransInner (nullify_quadrants[spec_child (hd xs) R :=
                          Some (TransLeaf xs (2 ^ 31) (2 ^ 31))]),
                      uf_region = R, uf_size = length xs, uf_maxdepth = 2, uf_maxfill = 2 ^ 31,
                      uf_ninners = 1, uf_nleafs = 1\<rparr>"
    by auto
  from ne have "hd xs \<in> set xs" by simp
  with assms(2) have "coords (hd xs) = coords x" by simp
  then have quad: "spec_child x R = spec_child (hd xs) R" by (rule spec_child_coords [symmetric])
  from assms(2) have inq: "in_quadrant x R" by simp
  from pre have co: "\<forall>i\<in>set xs. coords i = c" by simp
  from insert_overflow [OF inq assms(3) quad co refl, of f "length xs" "2 ^ 31"] run
  show ?thesis
    by (simp add: qt_build_def qt_insert_all_append del: qt_insert_rec.simps)
qed


lemma ucast_of_nat_32_64:
  assumes "n < 2 ^ 32"
  shows "(ucast (of_nat n :: 32 word) :: 64 word) = of_nat n"
proof -
  have "unat (ucast (of_nat n :: 32 word) :: 64 word) = n"
    using assms by (simp add: unat_ucast_32_64 unat_of_nat)
  moreover have "unat (of_nat n :: 64 word) = n"
    using assms by (simp add: unat_of_nat)
  ultimately show ?thesis by (simp add: word_unat_eq_iff)
qed

lemma height_single_leaf:
  "i < 4 \<Longrightarrow> height (TransInner (nullify_quadrants[i := Some (TransLeaf its k sz)])) = 2"
  by (auto simp: nullify_quadrants_def dest!: less4)

section \<open>Coincident items\<close>




section \<open>What a call of the iterator preserves\<close>

lemma set_FRAME_fields [simp]:
  "itr_region (set_FRAME itr so f) = itr_region itr"
  "itr_quadtree (set_FRAME itr so f) = itr_quadtree itr"
  "itr_so (set_FRAME itr so f) = itr_so itr"
  "itr_lp (set_FRAME itr so f) = itr_lp itr"
  "itr_cur_item (set_FRAME itr so f) = itr_cur_item itr"
  "length (itr_stack (set_FRAME itr so f)) = length (itr_stack itr)"
  by (simp_all add: set_FRAME_def)

lemma at_label_Goto_ctx:
  assumes "at_label l itr = Goto l' itr'"
  shows "itr_region itr' = itr_region itr \<and> itr_quadtree itr' = itr_quadtree itr"
  using assms
  by (auto simp: at_label_def at_RECURSE_def at_WHILE_SO_def at_WHILE_QUADRANT_def NEXTQUADRANT_def
      enter_child_def Let_def split: label.splits if_splits sum.splits)

lemma at_label_Return_ctx:
  assumes "at_label l itr = Return (Inr itr')"
  shows "itr_region itr' = itr_region itr \<and> itr_quadtree itr' = itr_quadtree itr"
  using assms
  by (auto simp: at_label_def at_RECURSE_def at_WHILE_SO_def at_WHILE_QUADRANT_def NEXTQUADRANT_def
      enter_child_def Let_def split: label.splits if_splits sum.splits)

lemma itr_goto_ctx:
  assumes "itr_goto l itr = Some r"
  shows "\<forall>itr'. r = Inr itr' \<longrightarrow>
           itr_region itr' = itr_region itr \<and> itr_quadtree itr' = itr_quadtree itr"
proof (rule itr_goto.raw_induct [where l = l and itr = itr and y = r and
      P = "\<lambda>l itr r. \<forall>itr'. r = Inr itr' \<longrightarrow>
             itr_region itr' = itr_region itr \<and> itr_quadtree itr' = itr_quadtree itr"])
  fix g l itr r
  assume IH: "\<And>l itr r. g l itr = Some r \<Longrightarrow> \<forall>itr'. r = Inr itr' \<longrightarrow>
             itr_region itr' = itr_region itr \<and> itr_quadtree itr' = itr_quadtree itr"
    and step: "(case at_label l itr of Return r \<Rightarrow> Some r | Goto l' itr' \<Rightarrow> g l' itr') = Some r"
  show "\<forall>itr'. r = Inr itr' \<longrightarrow>
             itr_region itr' = itr_region itr \<and> itr_quadtree itr' = itr_quadtree itr"
  proof (cases "at_label l itr")
    case (Return x)
    with step at_label_Return_ctx [of l itr] show ?thesis by auto
  next
    case (Goto l' itr1)
    with step have "g l' itr1 = Some r" by simp
    from IH [OF this] at_label_Goto_ctx [OF Goto] show ?thesis by simp
  qed
next
  show "itr_goto l itr = Some r" by fact
qed

lemma at_next_Return_item:
  assumes "at_next_label l itr = Return_item (Inr (Some itm, itr'))"
  shows "in_quadrant itm (itr_region itr) \<and> itr_region itr' = itr_region itr \<and>
         itr_quadtree itr' = itr_quadtree itr"
  using assms
  by (auto simp: at_next_label_def at_ENTER_def at_WHILE_ITEM_def Let_def
      split: next_label.splits if_splits sum.splits option.splits prod.splits)

lemma at_next_Goto_ctx:
  assumes "at_next_label l itr = Goto_next l' itr'"
  shows "itr_region itr' = itr_region itr \<and> itr_quadtree itr' = itr_quadtree itr"
  using assms
  by (auto simp: at_next_label_def at_ENTER_def at_WHILE_ITEM_def Let_def
      split: next_label.splits if_splits sum.splits option.splits prod.splits)

lemma at_next_Advance_ctx:
  assumes "at_next_label l itr = Advance itr'"
  shows "itr_region itr' = itr_region itr \<and> itr_quadtree itr' = itr_quadtree itr"
  using assms
  by (auto simp: at_next_label_def at_ENTER_def at_WHILE_ITEM_def Let_def
      split: next_label.splits if_splits sum.splits option.splits prod.splits)

lemma qt_itr_next_goto_checks:
  assumes "qt_itr_next_goto l itr = Some r"
  shows "\<forall>itm itr'. r = Inr (Some itm, itr') \<longrightarrow>
           in_quadrant itm (itr_region itr) \<and> itr_region itr' = itr_region itr \<and>
           itr_quadtree itr' = itr_quadtree itr"
proof (rule qt_itr_next_goto.raw_induct [where l = l and itr = itr and y = r and
      P = "\<lambda>l itr r. \<forall>itm itr'. r = Inr (Some itm, itr') \<longrightarrow>
           in_quadrant itm (itr_region itr) \<and> itr_region itr' = itr_region itr \<and>
           itr_quadtree itr' = itr_quadtree itr"])
  fix g l itr r
  assume IH: "\<And>l itr r. g l itr = Some r \<Longrightarrow> \<forall>itm itr'. r = Inr (Some itm, itr') \<longrightarrow>
           in_quadrant itm (itr_region itr) \<and> itr_region itr' = itr_region itr \<and>
           itr_quadtree itr' = itr_quadtree itr"
    and step: "(case at_next_label l itr of
                  Return_item r \<Rightarrow> Some r
                | Goto_next l' itr' \<Rightarrow> g l' itr'
                | Advance itr' \<Rightarrow>
                    Option.bind (itr_next_recursive itr')
                      (\<lambda>r. case r of Inl e \<Rightarrow> Some (Inl e) | Inr itr'' \<Rightarrow> g ENTER itr'')) = Some r"
  show "\<forall>itm itr'. r = Inr (Some itm, itr') \<longrightarrow>
           in_quadrant itm (itr_region itr) \<and> itr_region itr' = itr_region itr \<and>
           itr_quadtree itr' = itr_quadtree itr"
  proof (cases "at_next_label l itr")
    case (Return_item x)
    with step at_next_Return_item [of l itr] show ?thesis by auto
  next
    case (Goto_next l' itr1)
    with step have "g l' itr1 = Some r" by simp
    from IH [OF this] at_next_Goto_ctx [OF Goto_next] show ?thesis by simp
  next
    case (Advance itr1)
    with step obtain r1 where r1: "itr_next_recursive itr1 = Some r1"
      and rest: "(case r1 of Inl e \<Rightarrow> Some (Inl e) | Inr itr2 \<Rightarrow> g ENTER itr2) = Some r"
      by (auto simp: bind_eq_Some_conv)
    show ?thesis
    proof (cases r1)
      case (Inl e)
      with rest show ?thesis by auto
    next
      case (Inr itr2)
      with rest have "g ENTER itr2 = Some r" by simp
      from IH [OF this] itr_goto_ctx [OF r1 [unfolded itr_next_recursive_def]] Inr
        at_next_Advance_ctx [OF Advance]
      show ?thesis by simp
    qed
  qed
next
  show "qt_itr_next_goto l itr = Some r" by fact
qed


lemma include_all_eq:
  "offsetv + i + length addr \<le> length itemsv \<Longrightarrow>
   include_all addr itemsv offsetv i =
     take (offsetv + i) itemsv @ map Some addr @ drop (offsetv + i + length addr) itemsv"
proof (induction addr arbitrary: itemsv i)
  case Nil
  then show ?case by simp
next
  case (Cons a addr)
  from Cons.prems have lt: "offsetv + i < length itemsv" by simp
  from Cons.prems have "offsetv + (i + 1) + length addr \<le> length (itemsv[offsetv + i := Some a])"
    by simp
  from Cons.IH [OF this] lt show ?case
    by (simp add: take_Suc_conv_app_nth)
qed

section \<open>The region check of the iterator\<close>





section \<open>The traversal of the iterator\<close>

lemma cons_result_eq:
  "case_sum (\<lambda>e. Some (Inl e)) (\<lambda>itms. Some (Inr (itm # itms))) = cons_result itm"
  by (rule ext) (simp add: cons_result_def)

lemma qt_itr_drain_bind:
  "qt_itr_drain itr =
     Option.bind (qt_itr_next_goto ENTER itr)
       (\<lambda>r. case r of
              Inl e \<Rightarrow> Some (Inl e)
            | Inr (None, itr') \<Rightarrow> Some (Inr [])
            | Inr (Some itm, itr') \<Rightarrow> Option.bind (qt_itr_drain itr') (cons_result itm))"
  by (subst qt_itr_drain.simps)
    (auto simp: qt_itr_next_def cons_result_eq intro!: Option.bind_cong
      split: sum.splits option.splits prod.splits)

lemma qt_itr_drain_eq: "qt_itr_drain itr = drain_from ENTER itr"
  unfolding drain_from_def by (rule qt_itr_drain_bind)

lemma descend_from_unfold:
  "descend_from l itr =
     (case at_label l itr of
        Return r \<Rightarrow> (case r of Inl e \<Rightarrow> Some (Inl e) | Inr itr' \<Rightarrow> drain_from ENTER itr')
      | Goto l' itr' \<Rightarrow> descend_from l' itr')"
  unfolding descend_from_def
  by (subst itr_goto.simps) (simp add: qt_itr_drain_eq split: jump.splits sum.splits)

lemma drain_from_unfold:
  "drain_from l itr =
     (case at_next_label l itr of
        Return_item r \<Rightarrow>
          (case r of
             Inl e \<Rightarrow> Some (Inl e)
           | Inr (None, itr') \<Rightarrow> Some (Inr [])
           | Inr (Some itm, itr') \<Rightarrow> Option.bind (drain_from ENTER itr') (cons_result itm))
      | Goto_next l' itr' \<Rightarrow> drain_from l' itr'
      | Advance itr' \<Rightarrow> descend_from RECURSE itr')"
proof (cases "at_next_label l itr")
  case (Return_item r)
  have "drain_from l itr =
          (case r of
             Inl e \<Rightarrow> Some (Inl e)
           | Inr (None, itr') \<Rightarrow> Some (Inr [])
           | Inr (Some itm, itr') \<Rightarrow> Option.bind (qt_itr_drain itr') (cons_result itm))"
    unfolding drain_from_def
    by (subst qt_itr_next_goto.simps) (simp add: Return_item)
  then show ?thesis
    by (simp add: Return_item qt_itr_drain_eq split: sum.splits option.splits prod.splits)
next
  case (Goto_next l' itr')
  have "qt_itr_next_goto l itr = qt_itr_next_goto l' itr'"
    by (subst qt_itr_next_goto.simps) (simp add: Goto_next)
  then show ?thesis
    by (simp add: drain_from_def Goto_next)
next
  case (Advance itr')
  have "qt_itr_next_goto l itr =
          Option.bind (itr_goto RECURSE itr')
             (\<lambda>r. case r of Inl e \<Rightarrow> Some (Inl e) | Inr itr'' \<Rightarrow> qt_itr_next_goto ENTER itr'')"
    by (subst qt_itr_next_goto.simps) (simp add: Advance itr_next_recursive_def)
  then have "drain_from l itr = descend_from RECURSE itr'"
    unfolding descend_from_def drain_from_def
    by (cases "itr_goto RECURSE itr'") (auto simp: qt_itr_drain_bind [symmetric] split: sum.splits)
  then show ?thesis using Advance by simp
qed

lemma prepend_Nil [simp]: "prepend [] r = r"
proof (cases r)
  case None
  then show ?thesis by (simp add: prepend_def)
next
  case (Some x)
  then show ?thesis by (cases x) (simp_all add: prepend_def)
qed

lemma prepend_prepend [simp]: "prepend xs (prepend ys r) = prepend (xs @ ys) r"
proof (cases r)
  case None
  then show ?thesis by (simp add: prepend_def)
next
  case (Some x)
  then show ?thesis by (cases x) (simp_all add: prepend_def)
qed

lemma bind_cons_result: "Option.bind r (cons_result x) = prepend [x] r"
proof (cases r)
  case None
  then show ?thesis by (simp add: prepend_def)
next
  case (Some y)
  then show ?thesis by (cases y) (simp_all add: prepend_def cons_result_def)
qed

lemma prepend_Some [simp]: "prepend xs (Some (Inr ys)) = Some (Inr (xs @ ys))"
  by (simp add: prepend_def)

lemma FRAME_at: "so = int s \<Longrightarrow> s < length (itr_stack itr) \<Longrightarrow> FRAME itr so = Inr (itr_stack itr ! s)"
  by (simp add: FRAME_def)

lemma word64_pred_less:
  fixes k :: "64 word"
  assumes "1 \<le> k"
  shows "unat (k - 1) = unat k - 1"
  using assms by (simp add: unat_sub)

lemma frame_left_cur_item:
  "frame_left s (itr\<lparr>itr_cur_item := c\<rparr>) itr' = frame_left s itr itr'"
  by (simp add: frame_left_def)

lemma leaf_items_loop:
  assumes "itr_lp itr = Some a" and "itr_so itr = int s" and "1 \<le> s" and "s < length (itr_stack itr)"
    and "fr_node (itr_stack itr ! s) = a" and "as_leaf (itr_quadtree itr) a = Inr (k, items)"
    and "unat k = length items" and "1 \<le> k" and "itr_cur_item itr = of_nat j" and "j \<le> length items"
  shows "\<exists>itr'. frame_left s itr itr' \<and>
           drain_from WHILE_ITEM itr =
             prepend (filter (\<lambda>i. in_quadrant i (itr_region itr)) (drop j items))
               (descend_from RECURSE itr')"
  using assms
proof (induction "length items - j" arbitrary: j itr)
  case 0
  then have j: "j = length items" by simp
  from 0 have so: "itr_so itr = int s" and lt: "s < length (itr_stack itr)" and s1: "1 \<le> s" by simp_all
  have "of_nat (unat k) = k" by simp
  with 0(10) 0(8) j have cur: "itr_cur_item itr = k" by simp
  have "unat (k - 1) < unat k"
    using word64_pred_less [OF 0(9)] 0(9) by (simp add: word_le_nat_alt)
  then have nle: "\<not> k \<le> k - 1" by (simp add: word_le_nat_alt)
  let ?p = "itr_stack itr ! (s - 1)"
  let ?itr' = "set_FRAME (itr\<lparr>itr_so := int s - 1\<rparr>) (int s - 1) (?p\<lparr>fr_quadrant := fr_quadrant ?p + 1\<rparr>)"
  have f1: "FRAME itr (int s) = Inr (itr_stack itr ! s)" using lt by (simp add: FRAME_def)
  have f2: "FRAME (itr\<lparr>itr_so := int s - 1\<rparr>) (int s - 1) = Inr ?p"
    using lt s1 by (simp add: FRAME_def nat_diff_distrib)
  have step: "at_next_label WHILE_ITEM itr = Advance ?itr'"
    using 0(2) 0(6) 0(7) so f1 f2 nle cur
    by (simp add: at_next_label_def at_WHILE_ITEM_def Let_def)
  have left: "frame_left s itr ?itr'"
    using lt s1 by (auto simp: frame_left_def set_FRAME_def nat_diff_distrib)
  have "drain_from WHILE_ITEM itr = descend_from RECURSE ?itr'"
    by (subst drain_from_unfold) (simp add: step)
  with left j show ?case by (intro exI [of _ ?itr']) simp
next
  case (Suc n)
  then have j: "j < length items" by simp
  from Suc have so: "itr_so itr = int s" and lt: "s < length (itr_stack itr)" and s1: "1 \<le> s" by simp_all
  have uj: "unat (of_nat j :: 64 word) = j"
  proof -
    have "unat k < 2 ^ 64" using unsigned_less [of k, where ?'a = nat] by simp
    with j Suc.prems(7) have "j < 2 ^ 64" by simp
    then show ?thesis by (simp add: unat_of_nat)
  qed
  have le: "of_nat j \<le> k - 1"
    using word64_pred_less [OF Suc.prems(8)] uj j Suc.prems(7) by (simp add: word_le_nat_alt)
  have cur1: "of_nat j + 1 = (of_nat (Suc j) :: 64 word)" by simp
  let ?itm = "items ! j"
  let ?itr1 = "itr\<lparr>itr_cur_item := of_nat (Suc j)\<rparr>"
  have f1: "FRAME itr (int s) = Inr (itr_stack itr ! s)" using lt by (simp add: FRAME_def)
  have step: "at_next_label WHILE_ITEM itr =
                (if in_quadrant ?itm (itr_region itr) then Return_item (Inr (Some ?itm, ?itr1))
                 else Goto_next WHILE_ITEM ?itr1)"
    using Suc.prems(1,5,6,9) so f1 le uj j cur1
    by (simp add: at_next_label_def at_WHILE_ITEM_def Let_def del: of_nat_Suc)
  have enter: "drain_from ENTER ?itr1 = drain_from WHILE_ITEM ?itr1"
    using Suc.prems(1) by (subst drain_from_unfold) (simp add: at_next_label_def at_ENTER_def)
  have "n = length items - Suc j" using Suc.hyps(2) by simp
  from Suc.hyps(1) [OF this, of ?itr1] Suc.prems j
  obtain itr' where left: "frame_left s ?itr1 itr'"
    and run: "drain_from WHILE_ITEM ?itr1 =
                prepend (filter (\<lambda>i. in_quadrant i (itr_region itr)) (drop (Suc j) items))
                  (descend_from RECURSE itr')"
    by auto
  from left have left': "frame_left s itr itr'" by (simp add: frame_left_cur_item)
  have dr: "drop j items = ?itm # drop (Suc j) items"
    using j by (simp add: Cons_nth_drop_Suc)
  have "drain_from WHILE_ITEM itr =
          prepend (filter (\<lambda>i. in_quadrant i (itr_region itr)) (drop j items)) (descend_from RECURSE itr')"
    by (subst drain_from_unfold) (simp add: step enter run dr bind_cons_result del: of_nat_Suc)
  with left' show ?case by blast
qed

lemma gen_quadrants_sane:
  assumes "ASSERT_REGION_SANE q"
  shows "gen_quadrants q = Inr (gen_quadrants_mem q)"
  using assms
  by (auto simp: gen_quadrants_def gen_quadrants_mem_def ASSERT_REGION_SANE_def CALCDIVS_def
      quadindex_defs Let_def field_simps)

lemma sub_quadrant_sane:
  assumes "ASSERT_REGION_SANE q" "i < 4"
  shows "ASSERT_REGION_SANE (gen_quadrants_mem q ! i)"
  using assms(1) less4 [OF assms(2)]
  by (auto simp: gen_quadrants_mem_def ASSERT_REGION_SANE_def CALCDIVS_def Let_def field_simps)

lemma upt4: "[0..<4] = [0, 1, 2, 3]"
  by (simp add: upt_rec)

lemma query_spec_inner:
  assumes "length qs = 4"
  shows "query_spec R q (TransInner qs) = concat (map (slot_items R q qs) [0..<4])"
proof -
  from four [OF assms] obtain a b c d where qs: "qs = [a, b, c, d]" by blast
  from four [OF length_gen_quadrants_mem, of q] obtain g0 g1 g2 g3 where
    g: "gen_quadrants_mem q = [g0, g1, g2, g3]" by blast
  show ?thesis
    by (simp add: qs g upt4 slot_items_def split: option.splits)
qed

lemma fits_le: "fits d m t \<Longrightarrow> d \<le> m"
  by (cases t) (simp_all add: fits_def)

lemma frame_left_same_below:
  assumes "same_below s itr itr1" "frame_left s itr1 itr'"
  shows "frame_left s itr itr'"
  using assms by (auto simp: frame_left_def same_below_def)

lemma slots_loop:
  assumes mem: "as_inner T a = Inr offs" "length offs = 4" "IS_INNER T a"
    and none: "\<And>j. j < 4 \<Longrightarrow> qs ! j = None \<Longrightarrow> offs ! j = ROOT"
    and some: "\<And>j c. j < 4 \<Longrightarrow> qs ! j = Some c \<Longrightarrow>
                 offs ! j \<noteq> ROOT \<and> visits T R (Suc s) (offs ! j) (gen_quadrants_mem cq ! j) c \<and>
                 fits (Suc (Suc s)) L c"
    and sane: "ASSERT_REGION_SANE cq"
    and itr: "itr_quadtree itr = T" "itr_region itr = R" "itr_so itr = int s"
      "length (itr_stack itr) = L" "s < L" "fr_node (itr_stack itr ! s) = a"
      "fr_quadrants (itr_stack itr ! s) = gen_quadrants_mem cq"
      "fr_quadrant (itr_stack itr ! s) = i" "i \<le> 4"
  shows "\<exists>itr'. frame_left s itr itr' \<and>
           descend_from WHILE_QUADRANT itr =
             prepend (concat (map (slot_items R cq qs) [i..<4])) (descend_from WHILE_SO itr')"
  using itr
proof (induction "4 - i" arbitrary: i itr)
  case 0
  then have i: "i = 4" by simp
  let ?f = "itr_stack itr ! s"
  have fr: "FRAME itr (int s) = Inr ?f" using 0 by (simp add: FRAME_def)
  show ?case
  proof (cases "1 \<le> s")
    case True
    let ?p = "itr_stack itr ! (s - 1)"
    let ?itr' = "set_FRAME (itr\<lparr>itr_so := int s - 1\<rparr>) (int s - 1) (?p\<lparr>fr_quadrant := fr_quadrant ?p + 1\<rparr>)"
    have f2: "FRAME (itr\<lparr>itr_so := int s - 1\<rparr>) (int s - 1) = Inr ?p"
      using 0 True by (simp add: FRAME_def nat_diff_distrib)
    have step: "at_label WHILE_QUADRANT itr = Goto WHILE_SO ?itr'"
      using 0 i fr f2 True by (simp add: at_label_def at_WHILE_QUADRANT_def QUAD_def Let_def)
    have left: "frame_left s itr ?itr'"
      using 0 True by (auto simp: frame_left_def set_FRAME_def nat_diff_distrib)
    have "descend_from WHILE_QUADRANT itr = descend_from WHILE_SO ?itr'"
      by (subst descend_from_unfold) (simp add: step)
    with left i show ?thesis by (intro exI [of _ ?itr']) simp
  next
    case False
    then have s0: "s = 0" by simp
    let ?itr' = "itr\<lparr>itr_so := - 1\<rparr>"
    have step: "at_label WHILE_QUADRANT itr = Goto WHILE_SO ?itr'"
      using 0 i fr s0 by (simp add: at_label_def at_WHILE_QUADRANT_def QUAD_def Let_def)
    have left: "frame_left s itr ?itr'"
      using s0 by (simp add: frame_left_def)
    have "descend_from WHILE_QUADRANT itr = descend_from WHILE_SO ?itr'"
      by (subst descend_from_unfold) (simp add: step)
    with left i show ?thesis by (intro exI [of _ ?itr']) simp
  qed
next
  case (Suc n)
  then have i: "i < 4" by simp
  let ?f = "itr_stack itr ! s"
  let ?cq = "gen_quadrants_mem cq ! i"
  have fr: "FRAME itr (int s) = Inr ?f" using Suc.prems by (simp add: FRAME_def)
  have upt: "[i..<4] = i # [Suc i..<4]" using i by (simp add: upt_conv_Cons)
  let ?next = "set_FRAME itr (int s) (?f\<lparr>fr_quadrant := i + 1\<rparr>)"
  have next_pre: "itr_quadtree ?next = T" "itr_region ?next = R" "itr_so ?next = int s"
    "length (itr_stack ?next) = L" "s < L" "fr_node (itr_stack ?next ! s) = a"
    "fr_quadrants (itr_stack ?next ! s) = gen_quadrants_mem cq"
    "fr_quadrant (itr_stack ?next ! s) = Suc i" "Suc i \<le> 4"
    using Suc.prems i by (simp_all add: set_FRAME_def)
  have n: "n = 4 - Suc i" using Suc.hyps(2) by simp
  have next_below: "same_below s itr ?next"
    by (simp add: same_below_def set_FRAME_def)
  have skip: ?case
    if step: "at_label WHILE_QUADRANT itr = Goto WHILE_QUADRANT ?next"
      and empty: "slot_items R cq qs i = []"
  proof -
    from Suc.hyps(1) [OF n next_pre] obtain itr' where
      left: "frame_left s ?next itr'"
      and run: "descend_from WHILE_QUADRANT ?next =
                  prepend (concat (map (slot_items R cq qs) [Suc i..<4])) (descend_from WHILE_SO itr')"
      by blast
    have "descend_from WHILE_QUADRANT itr = descend_from WHILE_QUADRANT ?next"
      by (subst descend_from_unfold) (simp add: step)
    with run empty have "descend_from WHILE_QUADRANT itr =
        prepend (concat (map (slot_items R cq qs) [i..<4])) (descend_from WHILE_SO itr')"
      by (simp add: upt)
    moreover from frame_left_same_below [OF next_below left] have "frame_left s itr itr'" by simp
    ultimately show ?thesis by blast
  qed
  show ?case
  proof (cases "qs ! i")
    case None
    from none [OF i None] have "offs ! i = ROOT" .
    then have "at_label WHILE_QUADRANT itr = Goto WHILE_QUADRANT ?next"
      using Suc.prems i fr mem
      by (simp add: at_label_def at_WHILE_QUADRANT_def NEXTQUADRANT_def QUAD_def)
    moreover have "slot_items R cq qs i = []" using None by (simp add: slot_items_def)
    ultimately show ?thesis by (rule skip)
  next
    case (Some c)
    from some [OF i Some] have off: "offs ! i \<noteq> ROOT"
      and vis: "visits T R (Suc s) (offs ! i) ?cq c" and fit: "fits (Suc (Suc s)) L c"
      by simp_all
    show ?thesis
    proof (cases "OVERLAP R ?cq")
      case False
      then have "at_label WHILE_QUADRANT itr = Goto WHILE_QUADRANT ?next"
        using Suc.prems i fr mem off
        by (simp add: at_label_def at_WHILE_QUADRANT_def NEXTQUADRANT_def QUAD_def)
      moreover have "slot_items R cq qs i = []" using Some False by (simp add: slot_items_def)
      ultimately show ?thesis by (rule skip)
    next
      case True
      from fits_le [OF fit] have deep: "Suc s < L" by simp
      let ?f1 = "itr_stack itr ! Suc s"
      let ?new = "?f1\<lparr>fr_quadrant := 0, fr_quadrants := gen_quadrants_mem ?cq,
                        fr_within_parent := (fr_within_parent ?f \<or> CONTAINED ?cq R),
                        fr_node := MEM_INNERS + offs ! i\<rparr>"
      let ?itr1 = "set_FRAME (itr\<lparr>itr_so := int s + 1\<rparr>) (int s + 1) ?new"
      have sane_i: "ASSERT_REGION_SANE ?cq" by (rule sub_quadrant_sane [OF sane i])
      have f1: "FRAME (itr\<lparr>itr_so := int s + 1\<rparr>) (int s + 1) = Inr ?f1"
        using deep Suc.prems by (simp add: FRAME_def nat_add_distrib)
      have step: "at_label WHILE_QUADRANT itr = Goto RECURSE ?itr1"
        using Suc.prems i fr mem off True f1 gen_quadrants_sane [OF sane_i]
        by (simp add: at_label_def at_WHILE_QUADRANT_def enter_child_def QUAD_def Let_def)
      have nat1: "nat (int s + 1) = Suc s" by simp
      have st1: "itr_stack ?itr1 = (itr_stack itr)[Suc s := ?new]"
        by (simp add: set_FRAME_def nat1)
      have pre1: "itr_quadtree ?itr1 = T" "itr_region ?itr1 = R" "itr_so ?itr1 = int (Suc s)"
        "fits (Suc (Suc s)) (length (itr_stack ?itr1)) c"
        "fr_node (itr_stack ?itr1 ! Suc s) = offs ! i"
        "fr_quadrants (itr_stack ?itr1 ! Suc s) = gen_quadrants_mem ?cq"
        "fr_quadrant (itr_stack ?itr1 ! Suc s) = 0"
        "\<forall>p. Suc p = Suc s \<longrightarrow> IS_INNER T (fr_node (itr_stack ?itr1 ! p))"
        "is_inner c \<or> 1 \<le> Suc s"
        using Suc.prems deep fit mem(3) unfolding st1
        by (simp_all add: MEM_INNERS_def)
      from vis [unfolded visits_def] pre1 obtain itr2 where
        left2: "frame_left (Suc s) ?itr1 itr2"
        and run1: "descend_from RECURSE ?itr1 =
                     prepend (query_spec R ?cq c) (descend_from WHILE_SO itr2)"
        by blast
      from left2 have ctx2: "itr_so itr2 = int s" "itr_region itr2 = R" "itr_quadtree itr2 = T"
        "length (itr_stack itr2) = L"
        using Suc.prems by (simp_all add: frame_left_def)
      from left2 have top2: "itr_stack itr2 ! s = ?f\<lparr>fr_quadrant := fr_quadrant ?f + 1\<rparr>"
        unfolding frame_left_def st1 using Suc.prems by simp
      from left2 have below2: "\<forall>j. j < s \<longrightarrow> itr_stack itr2 ! j = itr_stack itr ! j"
        unfolding frame_left_def st1 by simp
      have fr2: "FRAME itr2 (int s) = Inr (itr_stack itr2 ! s)"
        using ctx2 Suc.prems by (simp add: FRAME_def)
      have step2: "at_label WHILE_SO itr2 = Goto WHILE_QUADRANT itr2"
        using ctx2 fr2 top2 Suc.prems mem(3)
        by (simp add: at_label_def at_WHILE_SO_def)
      have pre2: "itr_quadtree itr2 = T" "itr_region itr2 = R" "itr_so itr2 = int s"
        "length (itr_stack itr2) = L" "s < L" "fr_node (itr_stack itr2 ! s) = a"
        "fr_quadrants (itr_stack itr2 ! s) = gen_quadrants_mem cq"
        "fr_quadrant (itr_stack itr2 ! s) = Suc i" "Suc i \<le> 4"
        using ctx2 top2 Suc.prems i by simp_all
      from Suc.hyps(1) [OF n pre2] obtain itr3 where
        left3: "frame_left s itr2 itr3"
        and run2: "descend_from WHILE_QUADRANT itr2 =
                  prepend (concat (map (slot_items R cq qs) [Suc i..<4])) (descend_from WHILE_SO itr3)"
        by blast
      have same2: "same_below s itr itr2"
        using ctx2 below2 Suc.prems by (simp add: same_below_def)
      from frame_left_same_below [OF same2 left3] have left: "frame_left s itr itr3" by simp
      have items_i: "slot_items R cq qs i = query_spec R ?cq c"
        using Some True by (simp add: slot_items_def)
      have "descend_from WHILE_QUADRANT itr = descend_from RECURSE ?itr1"
        by (subst descend_from_unfold) (simp add: step)
      also have "\<dots> = prepend (query_spec R ?cq c) (descend_from WHILE_SO itr2)" by (rule run1)
      also have "descend_from WHILE_SO itr2 = descend_from WHILE_QUADRANT itr2"
        by (subst descend_from_unfold) (simp add: step2)
      finally have "descend_from WHILE_QUADRANT itr =
          prepend (concat (map (slot_items R cq qs) [i..<4])) (descend_from WHILE_SO itr3)"
        by (simp add: run2 upt items_i)
      with left show ?thesis by blast
    qed
  qed
qed

lemma frame_left_entered:
  "frame_left s (itr\<lparr>itr_cur_item := c, itr_lp := l\<rparr>) itr' = frame_left s itr itr'"
  by (simp add: frame_left_def)

lemma visit_node:
  assumes "repr T UNIV a t" "wf_node t" "leaves_nonempty t" "ASSERT_REGION_SANE cq"
  shows "visits T R s a cq t"
  using assms
proof (induction t arbitrary: a s cq)
  case (TransInner qs)
  from TransInner.prems(2) have len: "length qs = 4" by simp
  from TransInner.prems(1) show ?case
  proof (rule repr_inner_elim)
    fix offs
    assume lt: "a < MEM_LEAFS T" and mem: "qt_mem T a = Some (Node_Inner offs)"
      and lo: "length offs = length qs"
      and none: "\<And>i. i < length qs \<Longrightarrow> qs ! i = None \<Longrightarrow> offs ! i = ROOT"
      and some: "\<And>i c. i < length qs \<Longrightarrow> qs ! i = Some c \<Longrightarrow> offs ! i \<noteq> ROOT \<and> repr T UNIV (offs ! i) c"
    have inner: "IS_INNER T a" using lt by (simp add: IS_INNER_def IS_LEAF_def)
    have as: "as_inner T a = Inr offs" using mem by (simp add: as_inner_def)
    show ?thesis
      unfolding visits_def
    proof (intro allI impI)
      fix itr :: Qt_Iterator
      assume itr: "itr_quadtree itr = T" "itr_region itr = R" "itr_so itr = int s"
        and fit: "fits (Suc s) (length (itr_stack itr)) (TransInner qs)"
        and fr: "fr_node (itr_stack itr ! s) = a"
          "fr_quadrants (itr_stack itr ! s) = gen_quadrants_mem cq"
          "fr_quadrant (itr_stack itr ! s) = 0"
      let ?L = "length (itr_stack itr)"
      from fits_le [OF fit] have sL: "s < ?L" by simp
      have kids: "offs ! j \<noteq> ROOT \<and> visits T R (Suc s) (offs ! j) (gen_quadrants_mem cq ! j) c \<and>
                  fits (Suc (Suc s)) ?L c"
        if j: "j < 4" and c: "qs ! j = Some c" for j c
      proof -
        from j c len have in_qs: "Some c \<in> set qs" using nth_mem [of j qs] by simp
        from some [of j c] j c len have off: "offs ! j \<noteq> ROOT" and rep: "repr T UNIV (offs ! j) c"
          by simp_all
        from in_qs TransInner.prems(2,3) have "wf_node c" "leaves_nonempty c" by auto
        from TransInner.IH [OF in_qs _ rep this sub_quadrant_sane [OF TransInner.prems(4) j]]
        have "visits T R (Suc s) (offs ! j) (gen_quadrants_mem cq ! j) c" by simp
        moreover from fit in_qs have "fits (Suc (Suc s)) ?L c" by (simp add: fits_inner)
        ultimately show ?thesis using off by simp
      qed
      have nones: "offs ! j = ROOT" if "j < 4" "qs ! j = None" for j
        using none [of j] that len by simp
      have l4: "length offs = 4" using lo len by simp
      have "\<exists>itr'. frame_left s itr itr' \<and>
           descend_from WHILE_QUADRANT itr =
             prepend (concat (map (slot_items R cq qs) [0..<4])) (descend_from WHILE_SO itr')"
      proof (rule slots_loop [where T = T and a = a and offs = offs and qs = qs and s = s
            and L = "?L" and cq = cq])
        show "as_inner T a = Inr offs" by (rule as)
        show "length offs = 4" by (rule l4)
        show "IS_INNER T a" by (rule inner)
        show "\<And>j. j < 4 \<Longrightarrow> qs ! j = None \<Longrightarrow> offs ! j = ROOT" by (rule nones)
        show "\<And>j c. j < 4 \<Longrightarrow> qs ! j = Some c \<Longrightarrow>
                 offs ! j \<noteq> ROOT \<and> visits T R (Suc s) (offs ! j) (gen_quadrants_mem cq ! j) c \<and>
                 fits (Suc (Suc s)) ?L c" by (rule kids)
        show "ASSERT_REGION_SANE cq" by (rule TransInner.prems(4))
      qed (simp_all add: itr sL fr)
      then obtain itr' where left: "frame_left s itr itr'"
        and run: "descend_from WHILE_QUADRANT itr =
                    prepend (concat (map (slot_items R cq qs) [0..<4])) (descend_from WHILE_SO itr')"
        by auto
      have frame: "FRAME itr (int s) = Inr (itr_stack itr ! s)" using sL by (simp add: FRAME_def)
      have step1: "at_label RECURSE itr = Goto WHILE_SO itr"
        using itr frame fr inner by (simp add: at_label_def at_RECURSE_def IS_INNER_def)
      have step2: "at_label WHILE_SO itr = Goto WHILE_QUADRANT itr"
        using itr frame fr inner by (simp add: at_label_def at_WHILE_SO_def)
      have "descend_from RECURSE itr = descend_from WHILE_SO itr"
        by (subst descend_from_unfold) (simp add: step1)
      also have "\<dots> = descend_from WHILE_QUADRANT itr"
        by (subst descend_from_unfold) (simp add: step2)
      finally have "descend_from RECURSE itr =
          prepend (query_spec R cq (TransInner qs)) (descend_from WHILE_SO itr')"
        by (simp only: run query_spec_inner [OF len])
      with left show "\<exists>itr'. frame_left s itr itr' \<and>
           descend_from RECURSE itr = prepend (query_spec R cq (TransInner qs)) (descend_from WHILE_SO itr')"
        by blast
    qed
  qed
next
  case (TransLeaf its k sz)
  let ?k = "ucast k :: 64 word"
  let ?items = "take (unat k) its"
  from TransLeaf.prems have leafaddr: "MEM_LEAFS T \<le> a"
    and mem: "qt_mem T a = Some (Node_Leaf ?k ?items)"
    and wf: "unat k = length its" and k1: "1 \<le> k"
    by simp_all
  have isleaf: "IS_LEAF T a" using leafaddr by (simp add: IS_LEAF_def)
  have as: "as_leaf T a = Inr (?k, ?items)" using mem by (simp add: as_leaf_def)
  have uk: "unat ?k = length ?items" using wf by (simp add: unat_ucast_32_64)
  have k1': "1 \<le> ?k"
    using k1 by (simp add: word_le_nat_alt unat_ucast_32_64)
  show ?case
    unfolding visits_def
  proof (intro allI impI)
    fix itr :: Qt_Iterator
    assume itr: "itr_quadtree itr = T" "itr_region itr = R" "itr_so itr = int s"
      and fit: "fits (Suc s) (length (itr_stack itr)) (TransLeaf its k sz)"
      and fr: "fr_node (itr_stack itr ! s) = a"
      and parent: "\<forall>p. Suc p = s \<longrightarrow> IS_INNER T (fr_node (itr_stack itr ! p))"
      and s1': "is_inner (TransLeaf its k sz) \<or> 1 \<le> s"
    then have s1: "1 \<le> s" by simp
    from fits_le [OF fit] have sL: "s < length (itr_stack itr)" by simp
    let ?itr0 = "itr\<lparr>itr_cur_item := 0, itr_lp := Some a\<rparr>"
    have frame: "FRAME itr (int s) = Inr (itr_stack itr ! s)" using sL by (simp add: FRAME_def)
    have step1: "at_label RECURSE itr = Return (Inr ?itr0)"
      using itr frame fr isleaf by (simp add: at_label_def at_RECURSE_def)
    have step2: "at_next_label ENTER ?itr0 = Goto_next WHILE_ITEM ?itr0"
      by (simp add: at_next_label_def at_ENTER_def)
    have "itr_cur_item ?itr0 = of_nat 0" by simp
    from leaf_items_loop [of ?itr0 a s ?k ?items 0, OF _ _ s1 _ _ _ uk k1' this]
      itr sL fr as
    obtain itr' where left0: "frame_left s ?itr0 itr'"
      and run: "drain_from WHILE_ITEM ?itr0 =
                  prepend (filter (\<lambda>i. in_quadrant i R) ?items) (descend_from RECURSE itr')"
      by auto
    from left0 have left: "frame_left s itr itr'" by (simp add: frame_left_entered)
    from s1 obtain p where p: "s = Suc p" by (cases s) simp_all
    from left p have so': "itr_so itr' = int p" and len': "length (itr_stack itr') = length (itr_stack itr)"
      and qt': "itr_quadtree itr' = T"
      and top': "itr_stack itr' ! p = (itr_stack itr ! p)\<lparr>fr_quadrant := fr_quadrant (itr_stack itr ! p) + 1\<rparr>"
      using itr by (simp_all add: frame_left_def)
    have frame': "FRAME itr' (int p) = Inr (itr_stack itr' ! p)"
      using sL p len' by (simp add: FRAME_def)
    from parent p have "IS_INNER T (fr_node (itr_stack itr ! p))" by simp
    then have step3: "at_label RECURSE itr' = Goto WHILE_SO itr'"
      using so' frame' top' qt' by (simp add: at_label_def at_RECURSE_def IS_INNER_def)
    have "descend_from RECURSE itr = drain_from ENTER ?itr0"
      by (subst descend_from_unfold) (simp add: step1)
    also have "\<dots> = drain_from WHILE_ITEM ?itr0"
      by (subst drain_from_unfold) (simp add: step2)
    also have "\<dots> = prepend (filter (\<lambda>i. in_quadrant i R) ?items) (descend_from RECURSE itr')"
      by (rule run)
    also have "descend_from RECURSE itr' = descend_from WHILE_SO itr'"
      by (subst descend_from_unfold) (simp add: step3)
    finally have "descend_from RECURSE itr =
        prepend (query_spec R cq (TransLeaf its k sz)) (descend_from WHILE_SO itr')"
      by simp
    with left show "\<exists>itr'. frame_left s itr itr' \<and>
           descend_from RECURSE itr = prepend (query_spec R cq (TransLeaf its k sz)) (descend_from WHILE_SO itr')"
      by blast
  qed
qed

lemma sub_quadrant_within:
  assumes "in_quadrant i (gen_quadrants_mem q ! j)" "j < 4"
  shows "in_quadrant i q"
  using assms(1) less4 [OF assms(2)]
  by (auto simp: in_quadrant_def gen_quadrants_mem_def CALCDIVS_def Let_def field_simps)

lemma in_both_overlap: "in_quadrant i a \<Longrightarrow> in_quadrant i b \<Longrightarrow> OVERLAP a b"
  by (auto simp: in_quadrant_def OVERLAP_def)

lemma items_of_inner:
  assumes "length qs = 4"
  shows "items_of (TransInner qs) =
           concat (map (\<lambda>j. case qs ! j of None \<Rightarrow> [] | Some c \<Rightarrow> items_of c) [0..<4])"
proof -
  from four [OF assms] obtain a b c d where qs: "qs = [a, b, c, d]" by blast
  show ?thesis by (simp add: qs upt4)
qed

lemma in_region_items:
  assumes "in_region q t" "wf_node t"
  shows "\<forall>i\<in>set (items_of t). in_quadrant i q"
  using assms
proof (induction t arbitrary: q)
  case (TransInner qs)
  from TransInner.prems(2) have len: "length qs = 4" by simp
  show ?case
  proof
    fix i assume "i \<in> set (items_of (TransInner qs))"
    then obtain j c where j: "j < 4" and c': "Some c = qs ! j" and i: "i \<in> set (items_of c)"
      unfolding items_of_inner [OF len] by (auto split: option.splits)
    from c' have c: "qs ! j = Some c" by simp
    from j c len have in_qs: "Some c \<in> set qs" using nth_mem [of j qs] by simp
    from TransInner.prems(1) [unfolded in_region_inner [OF len]] j c
    have reg: "in_region (gen_quadrants_mem q ! j) c" by blast
    from in_qs TransInner.prems(2) have "wf_node c" by auto
    from TransInner.IH [OF in_qs _ reg this] i have "in_quadrant i (gen_quadrants_mem q ! j)" by simp
    then show "in_quadrant i q" using j by (rule sub_quadrant_within)
  qed
next
  case (TransLeaf its k sz)
  then show ?case by simp
qed

lemma query_spec_filter:
  assumes "in_region q t" "wf_node t"
  shows "query_spec R q t = filter (\<lambda>i. in_quadrant i R) (items_of t)"
  using assms
proof (induction t arbitrary: q)
  case (TransInner qs)
  from TransInner.prems(2) have len: "length qs = 4" by simp
  have slot: "slot_items R q qs j =
                filter (\<lambda>i. in_quadrant i R) (case qs ! j of None \<Rightarrow> [] | Some c \<Rightarrow> items_of c)"
    if j: "j < 4" for j
  proof (cases "qs ! j")
    case None
    then show ?thesis by (simp add: slot_items_def)
  next
    case (Some c)
    from j Some len have in_qs: "Some c \<in> set qs" using nth_mem [of j qs] by simp
    from TransInner.prems(1) [unfolded in_region_inner [OF len]] j Some
    have reg: "in_region (gen_quadrants_mem q ! j) c" by blast
    from in_qs TransInner.prems(2) have wf: "wf_node c" by auto
    show ?thesis
    proof (cases "OVERLAP R (gen_quadrants_mem q ! j)")
      case True
      with TransInner.IH [OF in_qs _ reg wf] Some show ?thesis by (simp add: slot_items_def)
    next
      case False
      have "\<not> in_quadrant i R" if "i \<in> set (items_of c)" for i
        using in_region_items [OF reg wf] that False in_both_overlap [of i R "gen_quadrants_mem q ! j"]
        by blast
      then have "filter (\<lambda>i. in_quadrant i R) (items_of c) = []"
        by (simp add: filter_empty_conv)
      with Some False show ?thesis by (simp add: slot_items_def)
    qed
  qed
  show ?case
    unfolding query_spec_inner [OF len] items_of_inner [OF len]
    by (simp add: upt4 slot)
next
  case (TransLeaf its k sz)
  then show ?case by simp
qed

lemma query_all_spec:
  assumes rep: "repr T UNIV MEM_ROOT t" and t: "is_inner t" "wf_node t" "leaves_nonempty t"
    and sane: "ASSERT_REGION_SANE (qt_region T)" and deep: "fits 1 (qt_maxdepth T) t"
  shows "qt_query_all T Q = Some (Inr (query_spec Q (qt_region T) t))"
proof -
  let ?itr = "\<lparr> itr_stack = replicate (qt_maxdepth T) blank_frame, itr_lp = None, itr_so = 0,
                 itr_cur_item = 0, itr_region = Q, itr_quadtree = T \<rparr>"
  let ?f = "blank_frame\<lparr> fr_node := MEM_ROOT, fr_quadrant := 0, fr_within_parent := False,
                          fr_quadrants := gen_quadrants_mem (qt_region T) \<rparr>"
  let ?start = "set_FRAME ?itr 0 ?f"
  from fits_le [OF deep] have d1: "0 < qt_maxdepth T" by simp
  have frame: "FRAME ?itr 0 = Inr blank_frame" using d1 by (simp add: FRAME_def)
  have start: "qt_query_all T Q = descend_from RECURSE ?start"
    using frame gen_quadrants_sane [OF sane]
    by (simp add: qt_query_all_def qt_query_itr_def descend_from_def itr_next_recursive_def Let_def)
  have st0: "itr_stack ?start = (replicate (qt_maxdepth T) blank_frame)[0 := ?f]"
    by (simp add: set_FRAME_def)
  have pre: "itr_quadtree ?start = T" "itr_region ?start = Q" "itr_so ?start = int 0"
    "fits (Suc 0) (length (itr_stack ?start)) t"
    "fr_node (itr_stack ?start ! 0) = MEM_ROOT"
    "fr_quadrants (itr_stack ?start ! 0) = gen_quadrants_mem (qt_region T)"
    "fr_quadrant (itr_stack ?start ! 0) = 0"
    "\<forall>p. Suc p = 0 \<longrightarrow> IS_INNER T (fr_node (itr_stack ?start ! p))"
    "is_inner t \<or> 1 \<le> (0 :: nat)"
    using d1 deep t(1) unfolding st0 by simp_all
  from visit_node [OF rep t(2,3) sane, of Q 0, unfolded visits_def] pre
  obtain itr' where left: "frame_left 0 ?start itr'"
    and run: "descend_from RECURSE ?start =
                prepend (query_spec Q (qt_region T) t) (descend_from WHILE_SO itr')"
    by blast
  from left have so': "itr_so itr' = - 1" by (simp add: frame_left_def)
  have step1: "at_label WHILE_SO itr' = Return (Inr (itr'\<lparr>itr_lp := None\<rparr>))"
    using so' by (simp add: at_label_def at_WHILE_SO_def)
  have step2: "at_next_label ENTER (itr'\<lparr>itr_lp := None\<rparr>) = Return_item (Inr (None, itr'\<lparr>itr_lp := None\<rparr>))"
    by (simp add: at_next_label_def at_ENTER_def)
  have "descend_from WHILE_SO itr' = drain_from ENTER (itr'\<lparr>itr_lp := None\<rparr>)"
    by (subst descend_from_unfold) (simp add: step1)
  also have "\<dots> = Some (Inr [])"
    by (subst drain_from_unfold) (simp add: step2)
  finally show ?thesis using start run by simp
qed

lemma build_query:
  assumes build: "qt_build fuel region maxfill items = Inr B" and ne: "items \<noteq> []"
  shows "\<exists>T. qt_finalise B = Inr T \<and> qt_region T = region \<and>
             qt_query_all T Q = Some (Inr (filter (\<lambda>i. in_quadrant i Q) (items_of (uf_root B))))"
proof -
  note ok = qt_build_ok [OF build]
  from ok(1) have rt: "is_inner (uf_root B)" "wf_node (uf_root B)" "leaves_nonempty (uf_root B)"
    "in_region (uf_region B) (uf_root B)"
    by (simp_all add: builder_ok_def)
  from qt_finalise_repr [OF ok(1)] obtain T where T: "qt_finalise B = Inr T"
    and hd: "header_eq T (init_quadtree B)" and rep: "repr T UNIV MEM_ROOT (uf_root B)"
    by (auto simp: MEM_ROOT_def MEM_INNERS_def)
  from hd ok(3) have reg: "qt_region T = region" and md: "qt_maxdepth T = uf_maxdepth B"
    by (simp_all add: header_eq_def init_quadtree_def)
  have sane: "ASSERT_REGION_SANE (qt_region T)" unfolding reg by (rule ok(9) [OF ne])
  have deep: "fits 1 (qt_maxdepth T) (uf_root B)" unfolding md by (rule ok(8) [OF ne])
  from query_all_spec [OF rep rt(1-3) sane deep, of Q]
  have "qt_query_all T Q = Some (Inr (query_spec Q region (uf_root B)))" by (simp add: reg)
  also have "query_spec Q region (uf_root B) = filter (\<lambda>i. in_quadrant i Q) (items_of (uf_root B))"
    using rt(4) ok(3) by (intro query_spec_filter [OF _ rt(2)]) simp
  finally show ?thesis using T reg by blast
qed

lemma empty_build_query:
  assumes build: "qt_build fuel region maxfill [] = Inr B"
  shows "\<exists>T. qt_finalise B = Inr T \<and> qt_query_all T Q = Some (Inl Out_of_bounds)"
proof -
  from build have B: "B = qt_create_quadtree region maxfill" by (simp add: qt_build_def)
  obtain T where T: "qt_finalise B = Inr T" unfolding B using finalise_empty_ok by blast
  from qt_finalise_header [OF T] have "qt_maxdepth T = 0"
    by (simp add: B header_eq_def init_quadtree_def qt_create_quadtree_def)
  then have "qt_query_all T Q = Some (Inl Out_of_bounds)"
    by (simp add: qt_query_all_def qt_query_itr_def FRAME_def)
  with T show ?thesis by blast
qed

section \<open>The items a query yields\<close>





end
